theory Spec2Isabelle
  imports Main "HOL-Library.Multiset" "HOL-Library.Word"
begin

section \<open>Loop-carry elimination\<close>

text \<open>
  The pass of \<^verbatim>\<open>src/LoopCarry.cpp\<close> finds loads whose value in one iteration of a serial
  loop is the value of another load in the next iteration, links them into chains, keeps
  the longest chains up to \<^verbatim>\<open>max_carried_values\<close> and rewrites the loop body to carry the
  values in scratch buffers. The theory follows the source file: the IR it works on, the
  linearity analysis \<^verbatim>\<open>is_linear\<close>, \<^verbatim>\<open>StepForwards\<close>, the class \<^verbatim>\<open>LoopCarryOverLoop\<close>
  with its member \<^verbatim>\<open>lift_carried_values_out_of_stmt\<close>, and the driver \<^verbatim>\<open>LoopCarry\<close>.
  Worked inputs and the properties of the pass come after the program.

  What C++ leaves undefined, and a failed assertion, is a result of type \<open>error\<close>:
  \<open>EmptyBack\<close> is \<^verbatim>\<open>back()\<close> of an empty vector, \<open>BadRange\<close> an iterator range that ends
  outside its vector, \<open>OutOfBounds\<close> an index past the end of a vector,
  \<open>BlockOfUndefined\<close> a \<^verbatim>\<open>Block::make\<close> of an undefined statement, \<open>AssertFailed\<close> the
  \<^verbatim>\<open>internal_assert\<close> of the pass, and \<open>Diverged\<close> a loop that does not return.
  \<open>CarryFound\<close> is no error of the pass: it is the answer of the probe, further down, that
  looks for a run of stores with a carry edge.
\<close>

datatype error = EmptyBack | BadRange | OutOfBounds | BlockOfUndefined | AssertFailed | Diverged | CarryFound

section \<open>The statement and expression IR\<close>

datatype halide_type_code = Int_code | UInt_code | Float_code | Handle_code

datatype Type = Type (code: halide_type_code) (bits: nat) (lanes: nat)

definition Int_t :: "nat \<Rightarrow> Type" where
  "Int_t b = Type Int_code b 1"

definition Bool_t :: "nat \<Rightarrow> Type" where
  "Bool_t n = Type UInt_code 1 n"

definition with_lanes :: "Type \<Rightarrow> nat \<Rightarrow> Type" where
  "with_lanes t n = Type (code t) (bits t) n"

definition element_of :: "Type \<Rightarrow> Type" where
  "element_of t = with_lanes t 1"

definition is_scalar :: "Type \<Rightarrow> bool" where
  "is_scalar t \<longleftrightarrow> lanes t = 1"

datatype CallType = Image | Extern | ExternCPlusPlus | PureExtern | Halide | Intrinsic | PureIntrinsic

datatype Expr =
    IntImm Type int
  | UIntImm Type nat
  | Variable Type string
  | Add Expr Expr
  | Sub Expr Expr
  | Mul Expr Expr
  | EQ Expr Expr
  | GT Expr Expr
  | Ramp Expr Expr nat
  | Broadcast Expr nat
  | Load (load_type: Type) (load_name: string) (load_index: Expr)
         (load_image: "string option") (load_param: "string option") (load_predicate: Expr)
  | Let_e string Expr Expr
  | Call Type string "Expr list" CallType

datatype ForType = Serial | Parallel | Vectorized | Unrolled | Extern_loop | GPUBlock | GPUThread | GPULane

datatype MemoryType = Auto | Heap | Stack | Register | GPUShared

datatype Stmt =
    LetStmt string Expr Stmt
  | Store string Expr Expr "string option" Expr
  | Block Stmt Stmt
  | For string Expr Expr ForType nat nat Stmt
  | IfThenElse Expr Stmt "Stmt option"
  | ProducerConsumer string bool Stmt
  | Allocate string Type MemoryType "Expr list" Expr Stmt
  | Evaluate Expr

text \<open>
  Modelled from the spec: the type of an expression and the "trivial constructors/predicates"
  \<^verbatim>\<open>make_zero\<close>, \<^verbatim>\<open>const_true\<close>, \<^verbatim>\<open>is_const_zero\<close> and \<^verbatim>\<open>is_const_one\<close>, which belong to
  the IR and not to the pass's source. A comparison has the boolean type with the lanes of
  its operands; a constant of a vector type is the broadcast of the scalar constant.
\<close>

fun type_of :: "Expr \<Rightarrow> Type" where
  "type_of (IntImm t v) = t"
| "type_of (UIntImm t v) = t"
| "type_of (Variable t n) = t"
| "type_of (Add a b) = type_of a"
| "type_of (Sub a b) = type_of a"
| "type_of (Mul a b) = type_of a"
| "type_of (EQ a b) = Bool_t (lanes (type_of a))"
| "type_of (GT a b) = Bool_t (lanes (type_of a))"
| "type_of (Ramp base stride n) = with_lanes (type_of base) (n * lanes (type_of base))"
| "type_of (Broadcast v n) = with_lanes (type_of v) (n * lanes (type_of v))"
| "type_of (Load t n i im pa p) = t"
| "type_of (Let_e n v b) = type_of b"
| "type_of (Call t n args ct) = t"

definition make_const :: "Type \<Rightarrow> int \<Rightarrow> Expr" where
  "make_const t v =
     (let s = (if code t = UInt_code then UIntImm (element_of t) (nat v)
               else IntImm (element_of t) v)
      in if lanes t = 1 then s else Broadcast s (lanes t))"

definition make_zero :: "Type \<Rightarrow> Expr" where
  "make_zero t = make_const t 0"

definition const_true :: "nat \<Rightarrow> Expr" where
  "const_true n = make_const (Bool_t n) 1"

fun is_const_zero :: "Expr \<Rightarrow> bool" where
  "is_const_zero (IntImm t v) = (v = 0)"
| "is_const_zero (UIntImm t v) = (v = 0)"
| "is_const_zero (Broadcast v n) = is_const_zero v"
| "is_const_zero e = False"

fun is_const_one :: "Expr \<Rightarrow> bool" where
  "is_const_one (IntImm t v) = (v = 1)"
| "is_const_one (UIntImm t v) = (v = 1)"
| "is_const_one (Broadcast v n) = is_const_one v"
| "is_const_one e = False"

text \<open>An \<^verbatim>\<open>Expr\<close> handle may be undefined: \<open>None\<close>. \<^verbatim>\<open>is_const_zero\<close> of an undefined
  handle is false.\<close>

definition is_zero :: "Expr option \<Rightarrow> bool" where
  "is_zero e = (case e of None \<Rightarrow> False | Some x \<Rightarrow> is_const_zero x)"

section \<open>Linearity\<close>

text \<open>
  \<^verbatim>\<open>Scope<Expr>\<close>: a name is not in the scope (\<open>None\<close>), is bound to an undefined
  expression because it does not move linearly (\<open>Some None\<close>), or is bound to its step.
\<close>

type_synonym scope = "string \<rightharpoonup> Expr option"

fun is_linear :: "Expr \<Rightarrow> scope \<Rightarrow> Expr option" where
  "is_linear e linear =
     (if type_of e \<noteq> Int_t 32 then None
      else (case e of
          Variable t name \<Rightarrow>
            (case linear name of Some step \<Rightarrow> step | None \<Rightarrow> Some (make_zero t))
        | IntImm t v \<Rightarrow> Some (make_zero t)
        | Add a b \<Rightarrow>
            (let la = is_linear a linear; lb = is_linear b linear in
             if is_zero lb then la
             else if is_zero la then lb
             else (case (la, lb) of (Some x, Some y) \<Rightarrow> Some (Add x y) | _ \<Rightarrow> None))
        | Sub a b \<Rightarrow>
            (let la = is_linear a linear; lb = is_linear b linear in
             if is_zero lb then la
             else (case (la, lb) of (Some x, Some y) \<Rightarrow> Some (Sub x y) | _ \<Rightarrow> None))
        | Mul a b \<Rightarrow>
            (let la = is_linear a linear; lb = is_linear b linear in
             if is_zero la \<and> is_zero lb then la
             else if is_zero la \<and> lb \<noteq> None then map_option (Mul a) lb
             else if la \<noteq> None \<and> is_zero lb then map_option (\<lambda>x. Mul x b) la
             else None)
        | Ramp base stride n \<Rightarrow>
            (let la = is_linear base linear; lb = is_linear stride linear in
             if is_zero lb then la else None)
        | Broadcast v n \<Rightarrow> is_linear v linear
        | _ \<Rightarrow> None))"

declare is_linear.simps [simp del]

section \<open>Stepping an expression forwards by one iteration\<close>

text \<open>
  The simplifier, common-subexpression elimination and the prover are called as black
  boxes; the model takes them as parameters.
\<close>

record collab =
  simplify :: "Expr \<Rightarrow> Expr"
  common_subexpression_elimination :: "Expr \<Rightarrow> Expr"
  common_subexpression_elimination_stmt :: "Stmt \<Rightarrow> Stmt"
  can_prove :: "Expr \<Rightarrow> bool"

text \<open>
  Modelled from the spec: \<^verbatim>\<open>substitute_in_all_lets\<close>, which is not part of the pass's
  source: it "eliminates all Let/LetStmt by inlining". The table holds the values of the
  lets in scope.
\<close>

fun sil_expr :: "(string \<rightharpoonup> Expr) \<Rightarrow> Expr \<Rightarrow> Expr" where
  "sil_expr env (IntImm t v) = IntImm t v"
| "sil_expr env (UIntImm t v) = UIntImm t v"
| "sil_expr env (Variable t n) = (case env n of Some e \<Rightarrow> e | None \<Rightarrow> Variable t n)"
| "sil_expr env (Add a b) = Add (sil_expr env a) (sil_expr env b)"
| "sil_expr env (Sub a b) = Sub (sil_expr env a) (sil_expr env b)"
| "sil_expr env (Mul a b) = Mul (sil_expr env a) (sil_expr env b)"
| "sil_expr env (EQ a b) = EQ (sil_expr env a) (sil_expr env b)"
| "sil_expr env (GT a b) = GT (sil_expr env a) (sil_expr env b)"
| "sil_expr env (Ramp base stride n) = Ramp (sil_expr env base) (sil_expr env stride) n"
| "sil_expr env (Broadcast v n) = Broadcast (sil_expr env v) n"
| "sil_expr env (Load t n i im pa p) = Load t n (sil_expr env i) im pa (sil_expr env p)"
| "sil_expr env (Let_e n v b) = sil_expr (env(n \<mapsto> sil_expr env v)) b"
| "sil_expr env (Call t n args ct) = Call t n (map (sil_expr env) args) ct"

fun sil_stmt :: "(string \<rightharpoonup> Expr) \<Rightarrow> Stmt \<Rightarrow> Stmt" where
  "sil_stmt env (LetStmt n v b) = sil_stmt (env(n \<mapsto> sil_expr env v)) b"
| "sil_stmt env (Store n v i pa p) = Store n (sil_expr env v) (sil_expr env i) pa (sil_expr env p)"
| "sil_stmt env (Block a b) = Block (sil_stmt env a) (sil_stmt env b)"
| "sil_stmt env (For n mn ext ft pp da b) =
     For n (sil_expr env mn) (sil_expr env ext) ft pp da (sil_stmt (env(n := None)) b)"
| "sil_stmt env (IfThenElse c t e) =
     IfThenElse (sil_expr env c) (sil_stmt env t) (map_option (sil_stmt env) e)"
| "sil_stmt env (ProducerConsumer n p b) = ProducerConsumer n p (sil_stmt env b)"
| "sil_stmt env (Allocate n t m exts c b) =
     Allocate n t m (map (sil_expr env) exts) (sil_expr env c) (sil_stmt env b)"
| "sil_stmt env (Evaluate e) = Evaluate (sil_expr env e)"

definition substitute_in_all_lets :: "Expr \<Rightarrow> Expr" where
  "substitute_in_all_lets e = sil_expr Map.empty e"

definition substitute_in_all_lets_stmt :: "Stmt \<Rightarrow> Stmt" where
  "substitute_in_all_lets_stmt s = sil_stmt Map.empty s"

text \<open>
  \<^verbatim>\<open>StepForwards\<close>: the graph mutator with its \<^verbatim>\<open>visit(const Variable *)\<close>. The mutator
  clears \<^verbatim>\<open>success\<close> and goes on; the result is then thrown away, so the model stops at
  the first variable that is not linear. Every other node is rebuilt from its mutated
  children.
\<close>

fun StepForwards :: "scope \<Rightarrow> Expr \<Rightarrow> Expr option" where
  "StepForwards linear (Variable t n) =
     (case linear n of
        Some None \<Rightarrow> None
      | Some (Some step) \<Rightarrow>
          if is_const_zero step then Some (Variable t n) else Some (Add (Variable t n) step)
      | None \<Rightarrow> Some (Variable t n))"
| "StepForwards linear (IntImm t v) = Some (IntImm t v)"
| "StepForwards linear (UIntImm t v) = Some (UIntImm t v)"
| "StepForwards linear (Add a b) =
     (case (StepForwards linear a, StepForwards linear b) of
        (Some x, Some y) \<Rightarrow> Some (Add x y) | _ \<Rightarrow> None)"
| "StepForwards linear (Sub a b) =
     (case (StepForwards linear a, StepForwards linear b) of
        (Some x, Some y) \<Rightarrow> Some (Sub x y) | _ \<Rightarrow> None)"
| "StepForwards linear (Mul a b) =
     (case (StepForwards linear a, StepForwards linear b) of
        (Some x, Some y) \<Rightarrow> Some (Mul x y) | _ \<Rightarrow> None)"
| "StepForwards linear (EQ a b) =
     (case (StepForwards linear a, StepForwards linear b) of
        (Some x, Some y) \<Rightarrow> Some (EQ x y) | _ \<Rightarrow> None)"
| "StepForwards linear (GT a b) =
     (case (StepForwards linear a, StepForwards linear b) of
        (Some x, Some y) \<Rightarrow> Some (GT x y) | _ \<Rightarrow> None)"
| "StepForwards linear (Ramp base stride n) =
     (case (StepForwards linear base, StepForwards linear stride) of
        (Some x, Some y) \<Rightarrow> Some (Ramp x y n) | _ \<Rightarrow> None)"
| "StepForwards linear (Broadcast v n) = map_option (\<lambda>x. Broadcast x n) (StepForwards linear v)"
| "StepForwards linear (Load t n i im pa p) =
     (case (StepForwards linear p, StepForwards linear i) of
        (Some p', Some i') \<Rightarrow> Some (Load t n i' im pa p') | _ \<Rightarrow> None)"
| "StepForwards linear (Let_e n v b) =
     (case (StepForwards linear v, StepForwards linear b) of
        (Some x, Some y) \<Rightarrow> Some (Let_e n x y) | _ \<Rightarrow> None)"
| "StepForwards linear (Call t n args ct) =
     map_option (\<lambda>xs. Call t n xs ct) (those (map (StepForwards linear) args))"

definition step_forwards :: "'a collab_scheme \<Rightarrow> Expr \<Rightarrow> scope \<Rightarrow> Expr option" where
  "step_forwards C e linear =
     (case StepForwards linear e of
        None \<Rightarrow> None
      | Some e1 \<Rightarrow>
          Some (substitute_in_all_lets (simplify C (common_subexpression_elimination C e1))))"

section \<open>Finding and grouping the loads\<close>

text \<open>
  \<^verbatim>\<open>FindLoads\<close>: the loads of a statement in the order the visitor meets them, never
  looking inside a load. A node of the tree stands for a node of the graph, so every
  occurrence is listed.
\<close>

fun find_loads :: "Expr \<Rightarrow> Expr list" where
  "find_loads (Load t n i im pa p) = [Load t n i im pa p]"
| "find_loads (IntImm t v) = []"
| "find_loads (UIntImm t v) = []"
| "find_loads (Variable t n) = []"
| "find_loads (Add a b) = find_loads a @ find_loads b"
| "find_loads (Sub a b) = find_loads a @ find_loads b"
| "find_loads (Mul a b) = find_loads a @ find_loads b"
| "find_loads (EQ a b) = find_loads a @ find_loads b"
| "find_loads (GT a b) = find_loads a @ find_loads b"
| "find_loads (Ramp base stride n) = find_loads base @ find_loads stride"
| "find_loads (Broadcast v n) = find_loads v"
| "find_loads (Let_e n v b) = find_loads v @ find_loads b"
| "find_loads (Call t n args ct) = concat (map find_loads args)"

fun find_loads_stmt :: "Stmt \<Rightarrow> Expr list" where
  "find_loads_stmt (LetStmt n v b) = find_loads v @ find_loads_stmt b"
| "find_loads_stmt (Store n v i pa p) = find_loads p @ find_loads v @ find_loads i"
| "find_loads_stmt (Block a b) = find_loads_stmt a @ find_loads_stmt b"
| "find_loads_stmt (For n mn ext ft pp da b) =
     find_loads mn @ find_loads ext @ find_loads_stmt b"
| "find_loads_stmt (IfThenElse c t e) =
     find_loads c @ find_loads_stmt t @ (case e of None \<Rightarrow> [] | Some s \<Rightarrow> find_loads_stmt s)"
| "find_loads_stmt (ProducerConsumer n p b) = find_loads_stmt b"
| "find_loads_stmt (Allocate n t m exts c b) =
     concat (map find_loads exts) @ find_loads c @ find_loads_stmt b"
| "find_loads_stmt (Evaluate e) = find_loads e"

definition safe :: "string set \<Rightarrow> Expr \<Rightarrow> bool" where
  "safe in_consume load \<longleftrightarrow>
     load_image load \<noteq> None \<or> load_param load \<noteq> None \<or> load_name load \<in> in_consume"

text \<open>The inner loop of the grouping: the load joins every group whose first member it
  equals (\<^verbatim>\<open>graph_equal\<close> is structural equality).\<close>

fun represent :: "Expr \<Rightarrow> Expr list list \<Rightarrow> Expr list list \<times> bool" where
  "represent load [] = ([], False)"
| "represent load (v # vs) =
     (let (vs', represented) = represent load vs in
      case v of
        [] \<Rightarrow> (v # vs', represented)
      | v0 # _ \<Rightarrow> if load = v0 then ((v @ [load]) # vs', True) else (v # vs', represented))"

fun group_loads :: "string set \<Rightarrow> Expr list \<Rightarrow> Expr list list \<Rightarrow> Expr list list" where
  "group_loads in_consume [] loads = loads"
| "group_loads in_consume (load # found) loads =
     (if \<not> safe in_consume load then group_loads in_consume found loads
      else (let (loads', represented) = represent load loads in
            group_loads in_consume found (if represented then loads' else loads' @ [[load]])))"

section \<open>Carry edges\<close>

text \<open>
  The vectors \<^verbatim>\<open>indices\<close>, \<^verbatim>\<open>next_indices\<close>, \<^verbatim>\<open>predicates\<close>, \<^verbatim>\<open>next_predicates\<close> and
  their CSE'd copies, one entry per group, taken from the group's first load.
\<close>

definition indices :: "Expr list list \<Rightarrow> Expr list" where
  "indices loads = map (\<lambda>v. load_index (hd v)) loads"

definition next_indices :: "'a collab_scheme \<Rightarrow> scope \<Rightarrow> Expr list list \<Rightarrow> Expr option list" where
  "next_indices C linear loads = map (\<lambda>v. step_forwards C (load_index (hd v)) linear) loads"

definition predicates :: "Expr list list \<Rightarrow> Expr list" where
  "predicates loads = map (\<lambda>v. load_predicate (hd v)) loads"

definition next_predicates :: "'a collab_scheme \<Rightarrow> scope \<Rightarrow> Expr list list \<Rightarrow> Expr option list" where
  "next_predicates C linear loads =
     map (\<lambda>v. step_forwards C (load_predicate (hd v)) linear) loads"

text \<open>The test of the innermost \<^verbatim>\<open>if\<close> for one side (indices or predicates): the stepped
  expression is defined and equals the other, structurally or by the prover on the CSE'd
  forms when the types agree.\<close>

definition same_next :: "'a collab_scheme \<Rightarrow> Expr \<Rightarrow> Expr option \<Rightarrow> bool" where
  "same_next C e nxt =
     (case nxt of
        None \<Rightarrow> False
      | Some n \<Rightarrow>
          e = n \<or>
          (type_of e = type_of n \<and>
           can_prove C (EQ (common_subexpression_elimination C e)
                           (common_subexpression_elimination C n))))"

definition carries :: "'a collab_scheme \<Rightarrow> scope \<Rightarrow> Expr list list \<Rightarrow> nat \<Rightarrow> nat \<Rightarrow> bool" where
  "carries C linear loads i j \<longleftrightarrow>
     i \<noteq> j \<and>
     load_name (hd (loads ! i)) = load_name (hd (loads ! j)) \<and>
     same_next C (indices loads ! i) (next_indices C linear loads ! j) \<and>
     same_next C (predicates loads ! i) (next_predicates C linear loads ! j)"

definition find_chains :: "'a collab_scheme \<Rightarrow> scope \<Rightarrow> Expr list list \<Rightarrow> nat list list" where
  "find_chains C linear loads =
     concat (map (\<lambda>i. concat (map (\<lambda>j. if carries C linear loads i j then [[j, i]] else [])
                                  [0..<length loads]))
                 [0..<length loads])"

section \<open>Chains of carries\<close>

text \<open>
  A chain is a \<^verbatim>\<open>vector<int>\<close> of group indices, a list of naturals here (the indices are
  loop counters, never negative). The agglomeration is the loop \<^verbatim>\<open>while (!done)\<close>:
  \<open>agg_inner\<close> is its loop over \<^verbatim>\<open>j\<close>, \<open>agg_outer\<close> its loop over \<^verbatim>\<open>i\<close>, and \<open>compact\<close> the
  loop that swaps the empty chains out. When \<^verbatim>\<open>i\<close> and \<^verbatim>\<open>j\<close> are the same chain, the insertion
  of the chain into itself is followed by \<^verbatim>\<open>clear()\<close>, so the chain is empty afterwards;
  the \<^verbatim>\<open>back()\<close> of an emptied chain \<^verbatim>\<open>i\<close> at a later \<^verbatim>\<open>j\<close> is undefined.
\<close>

function agg_inner :: "nat \<Rightarrow> nat \<Rightarrow> nat list list \<Rightarrow> bool \<Rightarrow> error + (nat list list \<times> bool)" where
  "agg_inner i j chs done =
     (if j < length chs then
        (if chs ! j = [] then agg_inner i (j + 1) chs done
         else if chs ! i = [] then Inl EmptyBack
         else if last (chs ! i) = hd (chs ! j) then
           agg_inner i (j + 1) ((chs[i := chs ! i @ tl (chs ! j)])[j := []]) False
         else agg_inner i (j + 1) chs done)
      else Inr (chs, done))"
  by pat_completeness auto

termination
  by (relation "measure (\<lambda>(i, j, chs, done). length chs - j)") auto

declare agg_inner.simps [simp del]

lemma agg_inner_length:
  "agg_inner i j chs d = Inr (chs', d') \<Longrightarrow> length chs' = length chs"
proof (induction i j chs d rule: agg_inner.induct)
  case (1 i j chs d)
  from "1.prems" show ?case
    by (subst (asm) agg_inner.simps) (auto split: if_splits dest: "1.IH")
qed

function agg_outer :: "nat \<Rightarrow> nat list list \<Rightarrow> bool \<Rightarrow> error + (nat list list \<times> bool)" where
  "agg_outer i chs done =
     (if i < length chs then
        (if chs ! i = [] then agg_outer (i + 1) chs done
         else (case agg_inner i 0 chs done of
                 Inl e \<Rightarrow> Inl e
               | Inr (chs', done') \<Rightarrow> agg_outer (i + 1) chs' done'))
      else Inr (chs, done))"
  by pat_completeness auto

termination
  by (relation "measure (\<lambda>(i, chs, done). length chs - i)")
     (auto dest: agg_inner_length)

declare agg_outer.simps [simp del]

function compact :: "nat \<Rightarrow> nat list list \<Rightarrow> nat list list" where
  "compact i chs =
     (if i < length chs then
        (if chs ! i = [] then compact i (butlast (chs[i := last chs]))
         else compact (i + 1) chs)
      else chs)"
  by pat_completeness auto

termination
  by (relation "measure (\<lambda>(i, chs). 2 * length chs - i)") auto

declare compact.simps [simp del]

partial_function (option) agglomerate :: "nat list list \<Rightarrow> (error + nat list list) option" where
  "agglomerate chs =
     (case agg_outer 0 chs True of
        Inl e \<Rightarrow> Some (Inl e)
      | Inr (chs1, done) \<Rightarrow>
          (if done then Some (Inr (compact 0 chs1))
           else agglomerate (compact 0 chs1)))"

subsection \<open>Sorting and trimming the chains\<close>

text \<open>
  \<^verbatim>\<open>std::stable_sort\<close> with the comparator \<^verbatim>\<open>c1.size() > c2.size()\<close>: longest chains first,
  chains of equal length in their old order.
\<close>

definition sort_chains :: "nat list list \<Rightarrow> nat list list" where
  "sort_chains chs = sort_key (\<lambda>c. - int (length c)) chs"

text \<open>
  The conversion \<^verbatim>\<open>(size_t)max_carried_values\<close> of an \<^verbatim>\<open>int\<close> to the 64-bit unsigned
  \<^verbatim>\<open>size_t\<close>, and the budget loop. \<^verbatim>\<open>sz\<close> and \<^verbatim>\<open>c.size()\<close> are sizes of vectors that
  exist, so their sum does not wrap; \<^verbatim>\<open>(size_t)max_carried_values - 1\<close> does wrap when the
  budget is zero, and is written out. The iterator range
  \<^verbatim>\<open>c.begin(), c.begin() + max_carried_values - sz\<close> is defined only when it ends inside
  the chain.
\<close>

definition size_t :: "int \<Rightarrow> nat" where
  "size_t k = nat (k mod 2 ^ 64)"

fun trim_chains :: "int \<Rightarrow> nat \<Rightarrow> nat list list \<Rightarrow> nat list list \<Rightarrow> error + nat list list" where
  "trim_chains max_carried_values sz trimmed [] = Inr trimmed"
| "trim_chains max_carried_values sz trimmed (c # cs) =
     (if sz + length c > size_t max_carried_values then
        (if sz < (size_t max_carried_values + 2 ^ 64 - 1) mod 2 ^ 64 then
           (if 0 \<le> max_carried_values - int sz \<and> max_carried_values - int sz \<le> int (length c)
            then Inr (trimmed @ [take (nat (max_carried_values - int sz)) c])
            else Inl BadRange)
         else Inr trimmed)
      else trim_chains max_carried_values (sz + length c) (trimmed @ [c]) cs)"

section \<open>Rewriting a run of stores\<close>

text \<open>
  Modelled from the spec: the constructors \<^verbatim>\<open>Block::make\<close>, which are not part of the
  pass's source. A block is an ordered sequence of statements in right-associative pair
  form: the pair constructor re-nests a first statement that is itself a block, and the
  vector constructor folds the pair constructor from the right. The empty vector gives
  the undefined statement handle, \<open>None\<close>.
\<close>

fun Block_make2 :: "Stmt \<Rightarrow> Stmt \<Rightarrow> Stmt" where
  "Block_make2 (Block f r) rest = Block f (Block_make2 r rest)"
| "Block_make2 first rest = Block first rest"

fun Block_make :: "Stmt list \<Rightarrow> Stmt option" where
  "Block_make [] = None"
| "Block_make [s] = Some s"
| "Block_make (s # ss) = map_option (Block_make2 s) (Block_make ss)"

fun block_to_vector :: "Stmt \<Rightarrow> Stmt list" where
  "block_to_vector (Block first rest) = block_to_vector first @ block_to_vector rest"
| "block_to_vector s = [s]"

definition scratch_index :: "nat \<Rightarrow> Type \<Rightarrow> Expr" where
  "scratch_index i t =
     (if is_scalar t then IntImm (Int_t 32) (int i)
      else Ramp (IntImm (Int_t 32) (int i * int (lanes t))) (IntImm (Int_t 32) 1) (lanes t))"

text \<open>
  Modelled from the spec: \<^verbatim>\<open>graph_substitute\<close>, the "identity-based substitution" that
  "replaces every occurrence of a specific node handle". The handles that the pass gives
  it are the loads that \<^verbatim>\<open>FindLoads\<close> collected. In the tree every occurrence is a node of
  its own, so a collected node is an occurrence of a load outside every other load, and
  the nodes of a group are all such occurrences of its load. The mutator therefore
  replaces a load that is the needle where \<^verbatim>\<open>FindLoads\<close> would meet it and, like
  \<^verbatim>\<open>FindLoads\<close>, leaves the index and the predicate of a load alone: a load in there is
  another node, whether it equals the needle or not. In a graph one load node can be
  shared between a place outside every load and a place inside one (a let value used at
  both); the tree has a copy at each place, and only the outer copy is a collected node.
  The replacement is not searched again.
\<close>

fun graph_substitute :: "Expr \<Rightarrow> Expr \<Rightarrow> Expr \<Rightarrow> Expr" where
  "graph_substitute needle replacement (Load t n i im pa p) =
     (if Load t n i im pa p = needle then replacement else Load t n i im pa p)"
| "graph_substitute needle replacement (IntImm t v) = IntImm t v"
| "graph_substitute needle replacement (UIntImm t v) = UIntImm t v"
| "graph_substitute needle replacement (Variable t n) = Variable t n"
| "graph_substitute needle replacement (Add a b) =
     Add (graph_substitute needle replacement a) (graph_substitute needle replacement b)"
| "graph_substitute needle replacement (Sub a b) =
     Sub (graph_substitute needle replacement a) (graph_substitute needle replacement b)"
| "graph_substitute needle replacement (Mul a b) =
     Mul (graph_substitute needle replacement a) (graph_substitute needle replacement b)"
| "graph_substitute needle replacement (EQ a b) =
     EQ (graph_substitute needle replacement a) (graph_substitute needle replacement b)"
| "graph_substitute needle replacement (GT a b) =
     GT (graph_substitute needle replacement a) (graph_substitute needle replacement b)"
| "graph_substitute needle replacement (Ramp base stride n) =
     Ramp (graph_substitute needle replacement base) (graph_substitute needle replacement stride) n"
| "graph_substitute needle replacement (Broadcast v n) =
     Broadcast (graph_substitute needle replacement v) n"
| "graph_substitute needle replacement (Let_e n v b) =
     Let_e n (graph_substitute needle replacement v) (graph_substitute needle replacement b)"
| "graph_substitute needle replacement (Call t n args ct) =
     Call t n (map (graph_substitute needle replacement) args) ct"

fun graph_substitute_stmt :: "Expr \<Rightarrow> Expr \<Rightarrow> Stmt \<Rightarrow> Stmt" where
  "graph_substitute_stmt f r (LetStmt n v b) =
     LetStmt n (graph_substitute f r v) (graph_substitute_stmt f r b)"
| "graph_substitute_stmt f r (Store n v i pa p) =
     Store n (graph_substitute f r v) (graph_substitute f r i) pa (graph_substitute f r p)"
| "graph_substitute_stmt f r (Block a b) =
     Block (graph_substitute_stmt f r a) (graph_substitute_stmt f r b)"
| "graph_substitute_stmt f r (For n mn ext ft pp da b) =
     For n (graph_substitute f r mn) (graph_substitute f r ext) ft pp da
       (graph_substitute_stmt f r b)"
| "graph_substitute_stmt f r (IfThenElse c t e) =
     IfThenElse (graph_substitute f r c) (graph_substitute_stmt f r t)
       (map_option (graph_substitute_stmt f r) e)"
| "graph_substitute_stmt f r (ProducerConsumer n p b) =
     ProducerConsumer n p (graph_substitute_stmt f r b)"
| "graph_substitute_stmt f r (Allocate n t m exts c b) =
     Allocate n t m (map (graph_substitute f r) exts) (graph_substitute f r c)
       (graph_substitute_stmt f r b)"
| "graph_substitute_stmt f r (Evaluate e) = Evaluate (graph_substitute f r e)"

text \<open>
  Modelled from the spec: \<^verbatim>\<open>stmt_uses_var\<close>, the "free-variable test", and
  \<^verbatim>\<open>unique_name\<close>, the "fresh identifier": the prefix and the decimal digits of a counter
  that the state carries.
\<close>

fun expr_uses_var :: "Expr \<Rightarrow> string \<Rightarrow> bool" where
  "expr_uses_var (Variable t n) x = (n = x)"
| "expr_uses_var (IntImm t v) x = False"
| "expr_uses_var (UIntImm t v) x = False"
| "expr_uses_var (Add a b) x = (expr_uses_var a x \<or> expr_uses_var b x)"
| "expr_uses_var (Sub a b) x = (expr_uses_var a x \<or> expr_uses_var b x)"
| "expr_uses_var (Mul a b) x = (expr_uses_var a x \<or> expr_uses_var b x)"
| "expr_uses_var (EQ a b) x = (expr_uses_var a x \<or> expr_uses_var b x)"
| "expr_uses_var (GT a b) x = (expr_uses_var a x \<or> expr_uses_var b x)"
| "expr_uses_var (Ramp base stride n) x = (expr_uses_var base x \<or> expr_uses_var stride x)"
| "expr_uses_var (Broadcast v n) x = expr_uses_var v x"
| "expr_uses_var (Load t n i im pa p) x = (expr_uses_var p x \<or> expr_uses_var i x)"
| "expr_uses_var (Let_e n v b) x = (expr_uses_var v x \<or> (n \<noteq> x \<and> expr_uses_var b x))"
| "expr_uses_var (Call t n args ct) x = list_ex (\<lambda>a. expr_uses_var a x) args"

fun stmt_uses_var :: "Stmt \<Rightarrow> string \<Rightarrow> bool" where
  "stmt_uses_var (LetStmt n v b) x = (expr_uses_var v x \<or> (n \<noteq> x \<and> stmt_uses_var b x))"
| "stmt_uses_var (Store n v i pa p) x =
     (expr_uses_var p x \<or> expr_uses_var v x \<or> expr_uses_var i x)"
| "stmt_uses_var (Block a b) x = (stmt_uses_var a x \<or> stmt_uses_var b x)"
| "stmt_uses_var (For n mn ext ft pp da b) x =
     (expr_uses_var mn x \<or> expr_uses_var ext x \<or> (n \<noteq> x \<and> stmt_uses_var b x))"
| "stmt_uses_var (IfThenElse c t e) x =
     (expr_uses_var c x \<or> stmt_uses_var t x \<or>
      (case e of None \<Rightarrow> False | Some s \<Rightarrow> stmt_uses_var s x))"
| "stmt_uses_var (ProducerConsumer n p b) x = stmt_uses_var b x"
| "stmt_uses_var (Allocate n t m exts c b) x =
     (list_ex (\<lambda>a. expr_uses_var a x) exts \<or> expr_uses_var c x \<or> stmt_uses_var b x)"
| "stmt_uses_var (Evaluate e) x = expr_uses_var e x"

fun string_of_nat :: "nat \<Rightarrow> string" where
  "string_of_nat n =
     (if n < 10 then [''0123456789'' ! n]
      else string_of_nat (n div 10) @ [''0123456789'' ! (n mod 10)])"

declare string_of_nat.simps [simp del]

definition unique_name :: "char \<Rightarrow> nat \<Rightarrow> string" where
  "unique_name prefix counter = prefix # string_of_nat counter"

record ScratchAllocation =
  alloc_name :: string
  alloc_type :: Type
  alloc_size :: int
  initial_stores :: Stmt

record carry_state =
  allocs :: "ScratchAllocation list"
  fresh :: nat

text \<open>
  The loop over the positions \<^verbatim>\<open>i\<close> of one chain \<^verbatim>\<open>c\<close> of length \<^verbatim>\<open>n\<close>; the fourth
  argument is what is left of the chain from position \<^verbatim>\<open>i\<close> on. It threads \<^verbatim>\<open>core\<close>,
  \<^verbatim>\<open>not_first_iteration_scratch_stores\<close>, \<^verbatim>\<open>scratch_shuffles\<close> and
  \<^verbatim>\<open>initial_scratch_values\<close>.
\<close>

fun chain_loop ::
  "Expr list list \<Rightarrow> string \<Rightarrow> nat \<Rightarrow> nat \<Rightarrow> nat list \<Rightarrow>
   Stmt \<times> Stmt list \<times> Stmt list \<times> Expr list \<Rightarrow>
   error + (Stmt \<times> Stmt list \<times> Stmt list \<times> Expr list)" where
  "chain_loop loads scratch n i [] acc = Inr acc"
| "chain_loop loads scratch n i (g # gs) (core, not_first, scratch_shuffles, initial_values) =
     (if g < length loads then
        (case loads ! g of
           [] \<Rightarrow> Inl OutOfBounds
         | orig_load # _ \<Rightarrow>
             (let t = load_type orig_load;
                  scratch_idx = scratch_index i t;
                  load_from_scratch =
                    Load t scratch scratch_idx None None (const_true (lanes t));
                  core' = fold (\<lambda>l c. graph_substitute_stmt l load_from_scratch c)
                            (loads ! g) core;
                  not_first' =
                    (if i + 1 = n
                     then not_first @ [Store scratch orig_load scratch_idx None (const_true (lanes t))]
                     else not_first);
                  initial_values' =
                    (if i + 1 = n then initial_values else initial_values @ [orig_load]);
                  scratch_shuffles' =
                    (if 0 < i
                     then scratch_shuffles @ [Store scratch load_from_scratch (scratch_index (i - 1) t)
                                        None (const_true (lanes t))]
                     else scratch_shuffles)
              in chain_loop loads scratch n (i + 1) gs
                   (core', not_first', scratch_shuffles', initial_values')))
      else Inl OutOfBounds)"

fun peel_lets :: "Expr \<Rightarrow> (string \<times> Expr) list \<times> Expr" where
  "peel_lets (Let_e n v b) = (let (ls, e) = peel_lets b in ((n, v) # ls, e))"
| "peel_lets e = ([], e)"

text \<open>
  The loop \<^verbatim>\<open>for (size_t i = 0; i < c.size() - 1; i++)\<close> that builds the initial stores;
  \<^verbatim>\<open>bound\<close> is \<^verbatim>\<open>c.size() - 1\<close> in \<^verbatim>\<open>size_t\<close>. Reading \<^verbatim>\<open>initial_scratch_values[i]\<close>
  past the end of the vector is undefined in C++ and an error here.
\<close>

function initial_scratch_stores ::
  "string \<Rightarrow> Expr list \<Rightarrow> nat \<Rightarrow> nat \<Rightarrow> Stmt list \<Rightarrow> error + Stmt list" where
  "initial_scratch_stores scratch vals bound i acc =
     (if i < bound then
        (if i < length vals then
           (let v = vals ! i; scratch_idx = scratch_index i (type_of v) in
            initial_scratch_stores scratch vals bound (i + 1)
              (acc @ [Store scratch v scratch_idx None
                        (const_true (lanes (type_of scratch_idx)))]))
         else Inl OutOfBounds)
      else Inr acc)"
  by pat_completeness auto

termination
  by (relation "measure (\<lambda>(scratch, vals, bound, i, acc). bound - i)") auto

declare initial_scratch_stores.simps [simp del]

definition lift_chain ::
  "'a collab_scheme \<Rightarrow> Expr list list \<Rightarrow> (string \<times> Expr) list \<Rightarrow> nat list \<Rightarrow>
   Stmt \<times> Stmt list \<times> Stmt list \<times> carry_state \<Rightarrow>
   error + (Stmt \<times> Stmt list \<times> Stmt list \<times> carry_state)" where
  "lift_chain C loads containing_lets c acc =
     (case acc of (core, not_first, scratch_shuffles, st) \<Rightarrow>
      let scratch = unique_name CHR ''c'' (fresh st) in
      case chain_loop loads scratch (length c) 0 c (core, not_first, scratch_shuffles, []) of
        Inl e \<Rightarrow> Inl e
      | Inr (core', not_first', scratch_shuffles', initial_values) \<Rightarrow>
          let call = Call (Int_t 32) (unique_name CHR ''b'' (fresh st + 1)) initial_values
                       PureIntrinsic;
              (initial_lets, call') =
                peel_lets (simplify C (common_subexpression_elimination C call))
          in case call' of
               Call t nm args ct \<Rightarrow>
                 (case initial_scratch_stores scratch args
                         ((length c + 2 ^ 64 - 1) mod 2 ^ 64) 0 [] of
                    Inl e \<Rightarrow> Inl e
                  | Inr stores \<Rightarrow>
                      (case Block_make stores of
                         None \<Rightarrow> Inl BlockOfUndefined
                       | Some initial \<Rightarrow>
                           let wrapped = foldr (\<lambda>(n, v) s. LetStmt n v s) initial_lets initial;
                               rewrapped =
                                 foldr (\<lambda>(n, v) s. if stmt_uses_var s n then LetStmt n v s else s)
                                   containing_lets wrapped
                           in (case c of
                                 [] \<Rightarrow> Inl OutOfBounds
                               | g0 # _ \<Rightarrow>
                                   if g0 < length loads then
                                     (case loads ! g0 of
                                        [] \<Rightarrow> Inl OutOfBounds
                                      | l0 # _ \<Rightarrow>
                                          Inr (core', not_first', scratch_shuffles',
                                               \<lparr>allocs = allocs st @
                                                  [\<lparr>alloc_name = scratch,
                                                    alloc_type = element_of (load_type l0),
                                                    alloc_size = int (length c) *
                                                      int (lanes (load_type l0)),
                                                    initial_stores = rewrapped\<rparr>],
                                                fresh = fresh st + 2\<rparr>))
                                   else Inl OutOfBounds)))
             | _ \<Rightarrow> Inl AssertFailed)"

fun lift_chains ::
  "'a collab_scheme \<Rightarrow> Expr list list \<Rightarrow> (string \<times> Expr) list \<Rightarrow> nat list list \<Rightarrow>
   Stmt \<times> Stmt list \<times> Stmt list \<times> carry_state \<Rightarrow>
   error + (Stmt \<times> Stmt list \<times> Stmt list \<times> carry_state)" where
  "lift_chains C loads containing_lets [] acc = Inr acc"
| "lift_chains C loads containing_lets (c # cs) acc =
     (case lift_chain C loads containing_lets c acc of
        Inl e \<Rightarrow> Inl e
      | Inr acc' \<Rightarrow> lift_chains C loads containing_lets cs acc')"

text \<open>The chains a run of stores ends up with: the edges, agglomerated, sorted and
  trimmed to the budget.\<close>

definition select_chains :: "int \<Rightarrow> nat list list \<Rightarrow> error + nat list list" where
  "select_chains max_carried_values edges =
     (case agglomerate edges of
        None \<Rightarrow> Inl Diverged
      | Some (Inl e) \<Rightarrow> Inl e
      | Some (Inr chs) \<Rightarrow> trim_chains max_carried_values 0 [] (sort_chains chs))"

definition lift_carried_values_out_of_stmt ::
  "'a collab_scheme \<Rightarrow> int \<Rightarrow> string set \<Rightarrow> scope \<Rightarrow> (string \<times> Expr) list \<Rightarrow> Stmt \<Rightarrow>
   carry_state \<Rightarrow> error + (Stmt \<times> carry_state)" where
  "lift_carried_values_out_of_stmt C max_carried_values in_consume linear containing_lets
      orig_stmt st =
     (let graph_stmt = substitute_in_all_lets_stmt orig_stmt;
          loads = group_loads in_consume (find_loads_stmt graph_stmt) [];
          edges = find_chains C linear loads
      in if edges = [] then Inr (orig_stmt, st)
         else (case select_chains max_carried_values edges of
                 Inl e \<Rightarrow> Inl e
               | Inr trimmed \<Rightarrow>
                   (case lift_chains C loads containing_lets trimmed (graph_stmt, [], [], st) of
                      Inl e \<Rightarrow> Inl e
                    | Inr (core, not_first, scratch_shuffles, st') \<Rightarrow>
                        (case (Block_make not_first, Block_make scratch_shuffles) of
                           (Some s1, Some s3) \<Rightarrow>
                             Inr (common_subexpression_elimination_stmt C
                                    (Block_make2 (Block_make2 s1 core) s3), st')
                         | _ \<Rightarrow> Inl BlockOfUndefined))))"

section \<open>The per-loop rewriter and the driver\<close>

type_synonym lift_fn =
  "scope \<Rightarrow> (string \<times> Expr) list \<Rightarrow> Stmt \<Rightarrow> carry_state \<Rightarrow> error + (Stmt \<times> carry_state)"

fun is_Store :: "Stmt \<Rightarrow> bool" where
  "is_Store (Store n v i pa p) = True"
| "is_Store s = False"

text \<open>A weight for the recursion of the rewriter through the flattened blocks.\<close>

fun wt :: "Stmt \<Rightarrow> nat" where
  "wt (LetStmt n v b) = wt b + 1"
| "wt (Block a b) = wt a + wt b + 3"
| "wt (For n mn ext ft pp da b) = wt b + 1"
| "wt (IfThenElse c t e) = wt t + 1"
| "wt (ProducerConsumer n p b) = wt b + 1"
| "wt (Allocate n t m exts c b) = wt b + 1"
| "wt s = 0"

lemma wt_block_to_vector: "(\<Sum>x\<leftarrow>block_to_vector s. wt x + 1) \<le> wt s + 1"
  by (induction s rule: block_to_vector.induct) auto

text \<open>
  \<^verbatim>\<open>LoopCarryOverLoop\<close>: the mutator over one loop body. \<open>lift\<close> stands for the member
  function \<^verbatim>\<open>lift_carried_values_out_of_stmt\<close>, which the visits of \<^verbatim>\<open>Store\<close> and
  \<^verbatim>\<open>Block\<close> call with the scope \<^verbatim>\<open>linear\<close> and the stack \<^verbatim>\<open>containing_lets\<close> of the
  moment. \<open>carry_block\<close> is the loop of \<^verbatim>\<open>visit(const Block *)\<close> over the flattened
  block, with its vectors \<^verbatim>\<open>stores\<close> and \<^verbatim>\<open>result\<close>. The nodes the class does not
  override are rebuilt from their mutated children, as \<^verbatim>\<open>IRMutator\<close> does.
\<close>

function carry_mutate ::
    "lift_fn \<Rightarrow> scope \<Rightarrow> (string \<times> Expr) list \<Rightarrow> Stmt \<Rightarrow> carry_state \<Rightarrow>
     error + (Stmt \<times> carry_state)"
  and carry_block ::
    "lift_fn \<Rightarrow> scope \<Rightarrow> (string \<times> Expr) list \<Rightarrow> Stmt list \<Rightarrow> Stmt list \<Rightarrow> Stmt list \<Rightarrow>
     carry_state \<Rightarrow> error + (Stmt \<times> carry_state)" where
  "carry_mutate lift linear containing_lets (LetStmt n v b) st =
     (let step = is_linear v linear in
      case carry_mutate lift (linear(n \<mapsto> step)) (containing_lets @ [(n, v)]) b st of
        Inl e \<Rightarrow> Inl e
      | Inr (body, st') \<Rightarrow> Inr (LetStmt n v body, st'))"
| "carry_mutate lift linear containing_lets (Store n v i pa p) st =
     lift linear containing_lets (Store n v i pa p) st"
| "carry_mutate lift linear containing_lets (Block a b) st =
     carry_block lift linear containing_lets (block_to_vector (Block a b)) [] [] st"
| "carry_mutate lift linear containing_lets (For n mn ext ft pp da b) st =
     Inr (For n mn ext ft pp da b, st)"
| "carry_mutate lift linear containing_lets (IfThenElse c t e) st =
     Inr (IfThenElse c t e, st)"
| "carry_mutate lift linear containing_lets (ProducerConsumer n p b) st =
     (case carry_mutate lift linear containing_lets b st of
        Inl e \<Rightarrow> Inl e
      | Inr (body, st') \<Rightarrow> Inr (ProducerConsumer n p body, st'))"
| "carry_mutate lift linear containing_lets (Allocate n t m exts c b) st =
     (case carry_mutate lift linear containing_lets b st of
        Inl e \<Rightarrow> Inl e
      | Inr (body, st') \<Rightarrow> Inr (Allocate n t m exts c body, st'))"
| "carry_mutate lift linear containing_lets (Evaluate e) st = Inr (Evaluate e, st)"
| "carry_block lift linear containing_lets [] stores result st =
     (case Block_make stores of
        None \<Rightarrow>
          (case Block_make result of
             None \<Rightarrow> Inl BlockOfUndefined
           | Some s \<Rightarrow> Inr (s, st))
      | Some run \<Rightarrow>
          (case lift linear containing_lets run st of
             Inl e \<Rightarrow> Inl e
           | Inr (s', st') \<Rightarrow>
               (case Block_make (result @ [s']) of
                  None \<Rightarrow> Inl BlockOfUndefined
                | Some s \<Rightarrow> Inr (s, st'))))"
| "carry_block lift linear containing_lets (stmt # v) stores result st =
     (if is_Store stmt
      then carry_block lift linear containing_lets v (stores @ [stmt]) result st
      else (case Block_make stores of
              None \<Rightarrow>
                (case carry_mutate lift linear containing_lets stmt st of
                   Inl e \<Rightarrow> Inl e
                 | Inr (s', st') \<Rightarrow>
                     carry_block lift linear containing_lets v [] (result @ [s']) st')
            | Some run \<Rightarrow>
                (case lift linear containing_lets run st of
                   Inl e \<Rightarrow> Inl e
                 | Inr (r', st1) \<Rightarrow>
                     (case carry_mutate lift linear containing_lets stmt st1 of
                        Inl e \<Rightarrow> Inl e
                      | Inr (s', st') \<Rightarrow>
                          carry_block lift linear containing_lets v []
                            (result @ [r', s']) st'))))"
  by pat_completeness auto

termination
proof (relation "measure (\<lambda>x. case x of
          Inl (lift, linear, lets, s, st) \<Rightarrow> wt s
        | Inr (lift, linear, lets, v, stores, result, st) \<Rightarrow> (\<Sum>x\<leftarrow>v. wt x + 1))",
      goal_cases)
  case (3 lift linear containing_lets a b st)
  have "(\<Sum>x\<leftarrow>block_to_vector a. wt x + 1) \<le> wt a + 1"
       "(\<Sum>x\<leftarrow>block_to_vector b. wt x + 1) \<le> wt b + 1"
    by (rule wt_block_to_vector)+
  then show ?case by simp
qed auto

text \<open>
  Modelled from the spec: \<^verbatim>\<open>substitute(name, replacement, stmt)\<close>, "name-based
  substitution"; a binding of the same name hides the variable below it.
\<close>

fun substitute :: "string \<Rightarrow> Expr \<Rightarrow> Expr \<Rightarrow> Expr" where
  "substitute x r (Variable t n) = (if n = x then r else Variable t n)"
| "substitute x r (IntImm t v) = IntImm t v"
| "substitute x r (UIntImm t v) = UIntImm t v"
| "substitute x r (Add a b) = Add (substitute x r a) (substitute x r b)"
| "substitute x r (Sub a b) = Sub (substitute x r a) (substitute x r b)"
| "substitute x r (Mul a b) = Mul (substitute x r a) (substitute x r b)"
| "substitute x r (EQ a b) = EQ (substitute x r a) (substitute x r b)"
| "substitute x r (GT a b) = GT (substitute x r a) (substitute x r b)"
| "substitute x r (Ramp base stride n) = Ramp (substitute x r base) (substitute x r stride) n"
| "substitute x r (Broadcast v n) = Broadcast (substitute x r v) n"
| "substitute x r (Load t n i im pa p) = Load t n (substitute x r i) im pa (substitute x r p)"
| "substitute x r (Let_e n v b) =
     Let_e n (substitute x r v) (if n = x then b else substitute x r b)"
| "substitute x r (Call t n args ct) = Call t n (map (substitute x r) args) ct"

fun substitute_stmt :: "string \<Rightarrow> Expr \<Rightarrow> Stmt \<Rightarrow> Stmt" where
  "substitute_stmt x r (LetStmt n v b) =
     LetStmt n (substitute x r v) (if n = x then b else substitute_stmt x r b)"
| "substitute_stmt x r (Store n v i pa p) =
     Store n (substitute x r v) (substitute x r i) pa (substitute x r p)"
| "substitute_stmt x r (Block a b) = Block (substitute_stmt x r a) (substitute_stmt x r b)"
| "substitute_stmt x r (For n mn ext ft pp da b) =
     For n (substitute x r mn) (substitute x r ext) ft pp da
       (if n = x then b else substitute_stmt x r b)"
| "substitute_stmt x r (IfThenElse c t e) =
     IfThenElse (substitute x r c) (substitute_stmt x r t) (map_option (substitute_stmt x r) e)"
| "substitute_stmt x r (ProducerConsumer n p b) = ProducerConsumer n p (substitute_stmt x r b)"
| "substitute_stmt x r (Allocate n t m exts c b) =
     Allocate n t m (map (substitute x r) exts) (substitute x r c) (substitute_stmt x r b)"
| "substitute_stmt x r (Evaluate e) = Evaluate (substitute x r e)"

text \<open>The loop of \<^verbatim>\<open>LoopCarry::visit(const For *)\<close> that injects the scratch buffer
  allocations around the loop, the first allocation innermost.\<close>

definition inject_allocs :: "string \<Rightarrow> Expr \<Rightarrow> ScratchAllocation list \<Rightarrow> Stmt \<Rightarrow> Stmt" where
  "inject_allocs name mn as stmt =
     fold (\<lambda>alloc s.
             Allocate (alloc_name alloc) (alloc_type alloc) Stack
               [IntImm (Int_t 32) (alloc_size alloc)] (const_true 1)
               (Block_make2 (substitute_stmt name mn (initial_stores alloc)) s))
          as stmt"

text \<open>
  \<^verbatim>\<open>LoopCarry\<close>: the driver. The state is the counter of the fresh names; every eligible
  loop gets a \<^verbatim>\<open>LoopCarryOverLoop\<close> of its own, with no allocations yet. \<^verbatim>\<open>same_as\<close>, the
  identity of two handles, is equality of the trees.
\<close>

fun loop_carry_mutate ::
  "(string set \<Rightarrow> lift_fn) \<Rightarrow> string set \<Rightarrow> Stmt \<Rightarrow> nat \<Rightarrow> error + (Stmt \<times> nat)" where
  "loop_carry_mutate lift in_consume (ProducerConsumer n is_producer b) k =
     (case loop_carry_mutate lift (if is_producer then in_consume else insert n in_consume) b k of
        Inl e \<Rightarrow> Inl e
      | Inr (body, k') \<Rightarrow> Inr (ProducerConsumer n is_producer body, k'))"
| "loop_carry_mutate lift in_consume (For n mn ext ft pp da b) k =
     (if ft = Serial \<and> \<not> is_const_one ext then
        (case loop_carry_mutate lift in_consume b k of
           Inl e \<Rightarrow> Inl e
         | Inr (body, k1) \<Rightarrow>
             (case carry_mutate (lift in_consume) [n \<mapsto> Some (IntImm (Int_t 32) 1)] [] body
                     \<lparr>allocs = [], fresh = k1\<rparr> of
                Inl e \<Rightarrow> Inl e
              | Inr (body', st) \<Rightarrow>
                  (let stmt = inject_allocs n mn (allocs st) (For n mn ext ft pp da body') in
                   Inr (if allocs st \<noteq> []
                        then IfThenElse (GT ext (make_const (type_of ext) 0)) stmt None
                        else stmt,
                        fresh st))))
      else
        (case loop_carry_mutate lift in_consume b k of
           Inl e \<Rightarrow> Inl e
         | Inr (body, k') \<Rightarrow> Inr (For n mn ext ft pp da body, k')))"
| "loop_carry_mutate lift in_consume (LetStmt n v b) k =
     (case loop_carry_mutate lift in_consume b k of
        Inl e \<Rightarrow> Inl e
      | Inr (body, k') \<Rightarrow> Inr (LetStmt n v body, k'))"
| "loop_carry_mutate lift in_consume (Block a b) k =
     (case loop_carry_mutate lift in_consume a k of
        Inl e \<Rightarrow> Inl e
      | Inr (first, k1) \<Rightarrow>
          (case loop_carry_mutate lift in_consume b k1 of
             Inl e \<Rightarrow> Inl e
           | Inr (rest, k') \<Rightarrow>
               Inr (if first = a \<and> rest = b then Block a b else Block_make2 first rest, k')))"
| "loop_carry_mutate lift in_consume (IfThenElse c t e) k =
     (case loop_carry_mutate lift in_consume t k of
        Inl e \<Rightarrow> Inl e
      | Inr (then_case, k1) \<Rightarrow>
          (case e of
             None \<Rightarrow> Inr (IfThenElse c then_case None, k1)
           | Some els \<Rightarrow>
               (case loop_carry_mutate lift in_consume els k1 of
                  Inl e \<Rightarrow> Inl e
                | Inr (else_case, k') \<Rightarrow> Inr (IfThenElse c then_case (Some else_case), k'))))"
| "loop_carry_mutate lift in_consume (Allocate n t m exts c b) k =
     (case loop_carry_mutate lift in_consume b k of
        Inl e \<Rightarrow> Inl e
      | Inr (body, k') \<Rightarrow> Inr (Allocate n t m exts c body, k'))"
| "loop_carry_mutate lift in_consume (Store n v i pa p) k = Inr (Store n v i pa p, k)"
| "loop_carry_mutate lift in_consume (Evaluate e) k = Inr (Evaluate e, k)"

definition loop_carry :: "'a collab_scheme \<Rightarrow> Stmt \<Rightarrow> int \<Rightarrow> error + Stmt" where
  "loop_carry C s max_carried_values =
     (case loop_carry_mutate (lift_carried_values_out_of_stmt C max_carried_values) {} s 0 of
        Inl e \<Rightarrow> Inl e
      | Inr (s', k) \<Rightarrow> Inr s')"

section \<open>Worked inputs\<close>

text \<open>
  A set of collaborators that does nothing: the simplifier and the CSE passes return their
  argument, and the prover proves nothing (it "may return false for true propositions").
\<close>

definition plain :: collab where
  "plain = \<lparr>simplify = (\<lambda>e. e), common_subexpression_elimination = (\<lambda>e. e),
            common_subexpression_elimination_stmt = (\<lambda>s. s), can_prove = (\<lambda>e. False)\<rparr>"

definition i32 :: "int \<Rightarrow> Expr" where
  "i32 v = IntImm (Int_t 32) v"

definition var :: "string \<Rightarrow> Expr" where
  "var n = Variable (Int_t 32) n"

text \<open>A scalar load from the input parameter \<^verbatim>\<open>in\<close>.\<close>

definition ld :: "Expr \<Rightarrow> Expr" where
  "ld i = Load (Int_t 32) ''in'' i None (Some ''in'') (const_true 1)"

text \<open>The three-tap stencil \<^verbatim>\<open>out[x] = in[x] + in[x+1] + in[x+1+1]\<close> and its loop
  \<^verbatim>\<open>for x in [0, ext)\<close>.\<close>

definition stencil :: Stmt where
  "stencil =
     Store ''out''
       (Add (Add (ld (var ''x'')) (ld (Add (var ''x'') (i32 1))))
            (ld (Add (Add (var ''x'') (i32 1)) (i32 1))))
       (var ''x'') None (const_true 1)"

definition stencil_loop :: "Expr \<Rightarrow> Stmt" where
  "stencil_loop ext = For ''x'' (i32 0) ext Serial 0 0 stencil"

definition loop_scope :: scope where
  "loop_scope = [''x'' \<mapsto> Some (i32 1)]"

definition stencil_loads :: "Expr list list" where
  "stencil_loads =
     [[ld (var ''x'')], [ld (Add (var ''x'') (i32 1))], [ld (Add (Add (var ''x'') (i32 1)) (i32 1))]]"

definition st0 :: carry_state where
  "st0 = \<lparr>allocs = [], fresh = 0\<rparr>"

lemmas ir_defs = plain_def i32_def var_def ld_def stencil_def stencil_loop_def loop_scope_def
  stencil_loads_def st0_def Int_t_def Bool_t_def const_true_def make_const_def element_of_def
  with_lanes_def is_scalar_def

lemma stencil_group:
  "group_loads {} (find_loads_stmt (substitute_in_all_lets_stmt stencil)) [] = stencil_loads"
  by (simp add: ir_defs substitute_in_all_lets_stmt_def safe_def)

lemma stencil_steps:
  "step_forwards plain (var ''x'') loop_scope = Some (Add (var ''x'') (i32 1))"
  "step_forwards plain (Add (var ''x'') (i32 1)) loop_scope = Some (Add (Add (var ''x'') (i32 1)) (i32 1))"
  "step_forwards plain (const_true 1) loop_scope = Some (const_true 1)"
  by (simp_all add: ir_defs step_forwards_def substitute_in_all_lets_def)

lemma stencil_edges: "find_chains plain loop_scope stencil_loads = [[0, 1], [1, 2]]"
  by (simp add: find_chains_def carries_def same_next_def indices_def next_indices_def
      predicates_def next_predicates_def step_forwards_def substitute_in_all_lets_def ir_defs
      upt_rec)

lemma agglomerate_stencil: "agglomerate [[0, 1], [1, 2]] = Some (Inr [[0, 1, 2]])"
  by (simp add: agglomerate.simps agg_outer.simps agg_inner.simps compact.simps)

lemma select_stencil:
  "select_chains 8 [[0, 1], [1, 2]] = Inr [[0, 1, 2]]"
  "select_chains 0 [[0, 1], [1, 2]] = Inr [[]]"
  "select_chains 1 [[0, 1], [1, 2]] = Inr []"
  "select_chains 2 [[0, 1], [1, 2]] = Inr [[0, 1]]"
  by (simp_all add: select_chains_def agglomerate_stencil[simplified] sort_chains_def size_t_def)

lemma lift_stencil_zero:
  "lift_carried_values_out_of_stmt plain 0 {} loop_scope [] stencil st0 = Inl OutOfBounds"
  apply (simp only: lift_carried_values_out_of_stmt_def Let_def stencil_group stencil_edges
      select_stencil)
  apply (simp add: lift_chain_def initial_scratch_stores.simps plain_def)
  done

lemma lift_stencil_one:
  "lift_carried_values_out_of_stmt plain 1 {} loop_scope [] stencil st0 = Inl BlockOfUndefined"
  apply (simp only: lift_carried_values_out_of_stmt_def Let_def stencil_group stencil_edges
      select_stencil)
  apply simp
  done

definition scratch_ld :: "int \<Rightarrow> Expr" where
  "scratch_ld i = Load (Int_t 32) ''c0'' (i32 i) None None (const_true 1)"

definition scratch_st :: "Expr \<Rightarrow> int \<Rightarrow> Stmt" where
  "scratch_st v i = Store ''c0'' v (i32 i) None (const_true 1)"

definition stencil_body :: Stmt where
  "stencil_body =
     Block (scratch_st (ld (Add (Add (var ''x'') (i32 1)) (i32 1))) 2)
       (Block (Store ''out'' (Add (Add (scratch_ld 0) (scratch_ld 1)) (scratch_ld 2))
                 (var ''x'') None (const_true 1))
          (Block (scratch_st (scratch_ld 1) 0) (scratch_st (scratch_ld 2) 1)))"

definition stencil_prologue :: Stmt where
  "stencil_prologue =
     Block (scratch_st (ld (var ''x'')) 0) (scratch_st (ld (Add (var ''x'') (i32 1))) 1)"

definition stencil_state :: carry_state where
  "stencil_state =
     \<lparr>allocs = [\<lparr>alloc_name = ''c0'', alloc_type = Int_t 32, alloc_size = 3,
                  initial_stores = stencil_prologue\<rparr>],
      fresh = 2\<rparr>"

lemma lift_stencil_eight:
  "lift_carried_values_out_of_stmt plain 8 {} loop_scope [] stencil st0 =
     Inr (stencil_body, stencil_state)"
  apply (simp only: lift_carried_values_out_of_stmt_def Let_def stencil_group stencil_edges
      select_stencil)
  apply (simp add: Let_def lift_chain_def initial_scratch_stores.simps substitute_in_all_lets_stmt_def
      graph_substitute.simps unique_name_def string_of_nat.simps scratch_index_def
      scratch_ld_def scratch_st_def stencil_body_def stencil_prologue_def stencil_state_def
      ir_defs)
  done

definition stencil_out :: "Expr \<Rightarrow> Stmt" where
  "stencil_out ext =
     IfThenElse (GT ext (make_const (type_of ext) 0))
       (Allocate ''c0'' (Int_t 32) Stack [i32 3] (const_true 1)
          (Block (scratch_st (ld (i32 0)) 0)
             (Block (scratch_st (ld (Add (i32 0) (i32 1))) 1)
                (For ''x'' (i32 0) ext Serial 0 0 stencil_body))))
       None"

lemma carry_mutate_stencil:
  "carry_mutate lift linear lets stencil st = lift linear lets stencil st"
  by (simp add: stencil_def)

lemma loop_carry_mutate_stencil: "loop_carry_mutate lift ic stencil k = Inr (stencil, k)"
  by (simp add: stencil_def)

lemma loop_scope_fold: "[''x'' \<mapsto> Some (IntImm (Int_t 32) 1)] = loop_scope"
  by (simp add: loop_scope_def i32_def)

lemma st0_fold: "\<lparr>allocs = [], fresh = 0\<rparr> = st0"
  by (simp add: st0_def)

lemma inject_stencil:
  "inject_allocs ''x'' (i32 0) (allocs stencil_state) s =
     Allocate ''c0'' (Int_t 32) Stack [i32 3] (const_true 1)
          (Block (scratch_st (ld (i32 0)) 0)
             (Block (scratch_st (ld (Add (i32 0) (i32 1))) 1) s))"
  by (simp add: inject_allocs_def stencil_state_def stencil_prologue_def scratch_st_def ld_def
      var_def i32_def const_true_def make_const_def Bool_t_def element_of_def with_lanes_def)

lemma loop_carry_stencil:
  assumes "\<not> is_const_one ext"
  shows "loop_carry plain (stencil_loop ext) 8 = Inr (stencil_out ext)"
proof -
  have "loop_carry_mutate (lift_carried_values_out_of_stmt plain 8) {} (stencil_loop ext) 0
      = Inr (stencil_out ext, 2)"
    unfolding stencil_loop_def loop_carry_mutate.simps loop_carry_mutate_stencil
    using assms
    by (simp add: loop_scope_fold st0_fold carry_mutate_stencil lift_stencil_eight
        inject_stencil stencil_out_def)
       (simp add: stencil_state_def)
  then show ?thesis by (simp add: loop_carry_def)
qed

lemma loop_carry_stencil_zero:
  assumes "\<not> is_const_one ext"
  shows "loop_carry plain (stencil_loop ext) 0 = Inl OutOfBounds"
proof -
  have "loop_carry_mutate (lift_carried_values_out_of_stmt plain 0) {} (stencil_loop ext) 0
      = Inl OutOfBounds"
    unfolding stencil_loop_def loop_carry_mutate.simps loop_carry_mutate_stencil
    using assms
    by (simp add: loop_scope_fold st0_fold carry_mutate_stencil lift_stencil_zero)
  then show ?thesis by (simp add: loop_carry_def)
qed

text \<open>The two-tap stencil on vectors of four lanes:
  \<^verbatim>\<open>out[ramp(x, 1, 4)] = in[ramp(x, 1, 4)] + in[ramp(x + 1, 1, 4)]\<close>.\<close>

definition vld :: "Expr \<Rightarrow> Expr" where
  "vld i = Load (Type Int_code 32 4) ''in'' i None (Some ''in'') (const_true 4)"

definition vstencil :: Stmt where
  "vstencil =
     Store ''out''
       (Add (vld (Ramp (var ''x'') (i32 1) 4)) (vld (Ramp (Add (var ''x'') (i32 1)) (i32 1) 4)))
       (Ramp (var ''x'') (i32 1) 4) None (const_true 4)"

definition vloads :: "Expr list list" where
  "vloads = [[vld (Ramp (var ''x'') (i32 1) 4)], [vld (Ramp (Add (var ''x'') (i32 1)) (i32 1) 4)]]"

lemma vstencil_group:
  "group_loads {} (find_loads_stmt (substitute_in_all_lets_stmt vstencil)) [] = vloads"
  by (simp add: vstencil_def vloads_def vld_def ir_defs substitute_in_all_lets_stmt_def safe_def)

lemma vstencil_edges: "find_chains plain loop_scope vloads = [[0, 1]]"
  by (simp add: find_chains_def carries_def same_next_def indices_def next_indices_def
      predicates_def next_predicates_def step_forwards_def substitute_in_all_lets_def
      vloads_def vld_def ir_defs upt_rec)

lemma agglomerate_single: "agglomerate [[0, 1]] = Some (Inr [[0, 1]])"
  by (simp add: agglomerate.simps agg_outer.simps agg_inner.simps compact.simps)

lemma select_single: "select_chains 2 [[0, 1]] = Inr [[0, 1]]"
  by (simp add: select_chains_def agglomerate_single[simplified] sort_chains_def size_t_def)

lemma lift_vstencil_sizes:
  "(case lift_carried_values_out_of_stmt plain 2 {} loop_scope [] vstencil st0 of
      Inl e \<Rightarrow> [] | Inr (s, st) \<Rightarrow> map alloc_size (allocs st)) = [8]"
  apply (simp only: lift_carried_values_out_of_stmt_def Let_def vstencil_group vstencil_edges
      select_single)
  apply (simp add: Let_def lift_chain_def initial_scratch_stores.simps
      substitute_in_all_lets_stmt_def graph_substitute.simps unique_name_def
      string_of_nat.simps scratch_index_def vstencil_def vloads_def vld_def ir_defs)
  done

text \<open>The two-tap stencil \<^verbatim>\<open>out[x] = in[x] + in[x+1]\<close> and its loop. The simplifier has
  nothing to do on the stepped index \<^verbatim>\<open>x + 1\<close>, and no expression occurs twice.\<close>

definition two_tap :: Stmt where
  "two_tap =
     Store ''out'' (Add (ld (var ''x'')) (ld (Add (var ''x'') (i32 1))))
       (var ''x'') None (const_true 1)"

definition two_tap_loop :: "Expr \<Rightarrow> Stmt" where
  "two_tap_loop ext = For ''x'' (i32 0) ext Serial 0 0 two_tap"

definition two_tap_loads :: "Expr list list" where
  "two_tap_loads = [[ld (var ''x'')], [ld (Add (var ''x'') (i32 1))]]"

definition two_tap_body :: Stmt where
  "two_tap_body =
     Block (scratch_st (ld (Add (var ''x'') (i32 1))) 1)
       (Block (Store ''out'' (Add (scratch_ld 0) (scratch_ld 1)) (var ''x'') None (const_true 1))
          (scratch_st (scratch_ld 1) 0))"

definition two_tap_state :: carry_state where
  "two_tap_state =
     \<lparr>allocs = [\<lparr>alloc_name = ''c0'', alloc_type = Int_t 32, alloc_size = 2,
                  initial_stores = scratch_st (ld (var ''x'')) 0\<rparr>],
      fresh = 2\<rparr>"

definition two_tap_out :: "Expr \<Rightarrow> Stmt" where
  "two_tap_out ext =
     IfThenElse (GT ext (make_const (type_of ext) 0))
       (Allocate ''c0'' (Int_t 32) Stack [i32 2] (const_true 1)
          (Block (scratch_st (ld (i32 0)) 0)
             (For ''x'' (i32 0) ext Serial 0 0 two_tap_body)))
       None"

lemma two_tap_group:
  "group_loads {} (find_loads_stmt (substitute_in_all_lets_stmt two_tap)) [] = two_tap_loads"
  by (simp add: two_tap_def two_tap_loads_def ir_defs substitute_in_all_lets_stmt_def safe_def)

lemma two_tap_edges: "find_chains plain loop_scope two_tap_loads = [[0, 1]]"
  by (simp add: find_chains_def carries_def same_next_def indices_def next_indices_def
      predicates_def next_predicates_def step_forwards_def substitute_in_all_lets_def
      two_tap_loads_def ir_defs upt_rec)

lemma select_two_tap:
  "select_chains 8 [[0, 1]] = Inr [[0, 1]]"
  "select_chains 0 [[0, 1]] = Inr [[]]"
  "select_chains 1 [[0, 1]] = Inr []"
  by (simp_all add: select_chains_def agglomerate_single[simplified] sort_chains_def size_t_def)

lemma lift_two_tap_zero:
  "lift_carried_values_out_of_stmt plain 0 {} loop_scope [] two_tap st0 = Inl OutOfBounds"
  apply (simp only: lift_carried_values_out_of_stmt_def Let_def two_tap_group two_tap_edges
      select_two_tap)
  apply (simp add: lift_chain_def initial_scratch_stores.simps plain_def)
  done

lemma lift_two_tap_one:
  "lift_carried_values_out_of_stmt plain 1 {} loop_scope [] two_tap st0 = Inl BlockOfUndefined"
  apply (simp only: lift_carried_values_out_of_stmt_def Let_def two_tap_group two_tap_edges
      select_two_tap)
  apply simp
  done

lemma lift_two_tap_eight:
  "lift_carried_values_out_of_stmt plain 8 {} loop_scope [] two_tap st0 =
     Inr (two_tap_body, two_tap_state)"
  apply (simp only: lift_carried_values_out_of_stmt_def Let_def two_tap_group two_tap_edges
      select_two_tap)
  apply (simp add: Let_def lift_chain_def initial_scratch_stores.simps
      substitute_in_all_lets_stmt_def graph_substitute.simps unique_name_def
      string_of_nat.simps scratch_index_def scratch_ld_def scratch_st_def two_tap_body_def
      two_tap_state_def two_tap_def two_tap_loads_def ir_defs)
  done

lemma carry_mutate_two_tap:
  "carry_mutate lift linear lets two_tap st = lift linear lets two_tap st"
  by (simp add: two_tap_def)

lemma loop_carry_mutate_two_tap: "loop_carry_mutate lift ic two_tap k = Inr (two_tap, k)"
  by (simp add: two_tap_def)

lemma inject_two_tap:
  "inject_allocs ''x'' (i32 0) (allocs two_tap_state) s =
     Allocate ''c0'' (Int_t 32) Stack [i32 2] (const_true 1)
          (Block (scratch_st (ld (i32 0)) 0) s)"
  by (simp add: inject_allocs_def two_tap_state_def scratch_st_def ld_def
      var_def i32_def const_true_def make_const_def Bool_t_def element_of_def with_lanes_def)

lemma loop_carry_two_tap:
  assumes "\<not> is_const_one ext"
  shows "loop_carry plain (two_tap_loop ext) 8 = Inr (two_tap_out ext)"
proof -
  have "loop_carry_mutate (lift_carried_values_out_of_stmt plain 8) {} (two_tap_loop ext) 0
      = Inr (two_tap_out ext, 2)"
    unfolding two_tap_loop_def loop_carry_mutate.simps loop_carry_mutate_two_tap
    using assms
    by (simp add: loop_scope_fold st0_fold carry_mutate_two_tap lift_two_tap_eight
        inject_two_tap two_tap_out_def)
       (simp add: two_tap_state_def)
  then show ?thesis by (simp add: loop_carry_def)
qed

lemma loop_carry_two_tap_zero:
  assumes "\<not> is_const_one ext"
  shows "loop_carry plain (two_tap_loop ext) 0 = Inl OutOfBounds"
proof -
  have "loop_carry_mutate (lift_carried_values_out_of_stmt plain 0) {} (two_tap_loop ext) 0
      = Inl OutOfBounds"
    unfolding two_tap_loop_def loop_carry_mutate.simps loop_carry_mutate_two_tap
    using assms
    by (simp add: loop_scope_fold st0_fold carry_mutate_two_tap lift_two_tap_zero)
  then show ?thesis by (simp add: loop_carry_def)
qed

text \<open>With a budget of one no chain is kept, and the empty vector of leading-edge stores
  makes an undefined statement.\<close>

lemma loop_carry_two_tap_one:
  assumes "\<not> is_const_one ext"
  shows "loop_carry plain (two_tap_loop ext) 1 = Inl BlockOfUndefined"
proof -
  have "loop_carry_mutate (lift_carried_values_out_of_stmt plain 1) {} (two_tap_loop ext) 0
      = Inl BlockOfUndefined"
    unfolding two_tap_loop_def loop_carry_mutate.simps loop_carry_mutate_two_tap
    using assms
    by (simp add: loop_scope_fold st0_fold carry_mutate_two_tap lift_two_tap_one)
  then show ?thesis by (simp add: loop_carry_def)
qed

text \<open>
  A prover that knows that addition commutes, and nothing else. The statement
  \<^verbatim>\<open>out[x] = in[x] + in[x+1] + in[1+x]\<close> has three groups of loads; the index of the
  first, stepped forwards, is the index of the second structurally and the index of the
  third by the prover.
\<close>

fun commutes :: "Expr \<Rightarrow> bool" where
  "commutes (EQ (Add a b) (Add c d)) = (a = d \<and> b = c)"
| "commutes e = False"

definition commuting :: collab where
  "commuting = plain\<lparr>can_prove := commutes\<rparr>"

definition branching :: Stmt where
  "branching =
     Store ''out''
       (Add (Add (ld (var ''x'')) (ld (Add (var ''x'') (i32 1))))
            (ld (Add (i32 1) (var ''x''))))
       (var ''x'') None (const_true 1)"

definition branching_loads :: "Expr list list" where
  "branching_loads =
     [[ld (var ''x'')], [ld (Add (var ''x'') (i32 1))], [ld (Add (i32 1) (var ''x''))]]"

lemma branching_group:
  "group_loads {} (find_loads_stmt (substitute_in_all_lets_stmt branching)) [] = branching_loads"
  by (simp add: branching_def branching_loads_def ir_defs substitute_in_all_lets_stmt_def
      safe_def)

lemma branching_edges: "find_chains commuting loop_scope branching_loads = [[0, 1], [0, 2]]"
  by (simp add: find_chains_def carries_def same_next_def indices_def next_indices_def
      predicates_def next_predicates_def step_forwards_def substitute_in_all_lets_def
      branching_loads_def commuting_def ir_defs upt_rec)

lemma agglomerate_branching: "agglomerate [[0, 1], [0, 2]] = Some (Inr [[0, 1], [0, 2]])"
  by (simp add: agglomerate.simps agg_outer.simps agg_inner.simps compact.simps)

text \<open>
  A loop-invariant load written twice, \<^verbatim>\<open>in[k+1]\<close> and \<^verbatim>\<open>in[1+k]\<close>, beside the two-tap
  stencil: \<^verbatim>\<open>out[x] = in[k+1] + in[1+k] + in[x] + in[x+1]\<close>. Stepping leaves \<^verbatim>\<open>k + 1\<close> and
  \<^verbatim>\<open>1 + k\<close> as they are, and the prover equates each with the other, so each of the two
  groups carries into the other.
\<close>

definition cyclic :: Stmt where
  "cyclic =
     Store ''out''
       (Add (Add (Add (ld (Add (var ''k'') (i32 1))) (ld (Add (i32 1) (var ''k''))))
                 (ld (var ''x'')))
            (ld (Add (var ''x'') (i32 1))))
       (var ''x'') None (const_true 1)"

definition cyclic_loop :: "Expr \<Rightarrow> Stmt" where
  "cyclic_loop ext = For ''x'' (i32 0) ext Serial 0 0 cyclic"

definition cyclic_loads :: "Expr list list" where
  "cyclic_loads =
     [[ld (Add (var ''k'') (i32 1))], [ld (Add (i32 1) (var ''k''))], [ld (var ''x'')],
      [ld (Add (var ''x'') (i32 1))]]"

lemma cyclic_group:
  "group_loads {} (find_loads_stmt (substitute_in_all_lets_stmt cyclic)) [] = cyclic_loads"
  by (simp add: cyclic_def cyclic_loads_def ir_defs substitute_in_all_lets_stmt_def safe_def)

lemma cyclic_edges: "find_chains commuting loop_scope cyclic_loads = [[1, 0], [0, 1], [2, 3]]"
  by (simp add: find_chains_def carries_def same_next_def indices_def next_indices_def
      predicates_def next_predicates_def step_forwards_def substitute_in_all_lets_def
      cyclic_loads_def commuting_def ir_defs upt_rec)

lemma agglomerate_cyclic: "agglomerate [[1, 0], [0, 1], [2, 3]] = Some (Inl EmptyBack)"
  by (simp add: agglomerate.simps agg_outer.simps agg_inner.simps compact.simps)

lemma lift_cyclic:
  "lift_carried_values_out_of_stmt commuting k {} loop_scope [] cyclic st = Inl EmptyBack"
  apply (simp only: lift_carried_values_out_of_stmt_def Let_def cyclic_group cyclic_edges)
  apply (simp add: select_chains_def agglomerate_cyclic[simplified])
  done

lemma carry_mutate_cyclic:
  "carry_mutate lift linear lets cyclic st = lift linear lets cyclic st"
  by (simp add: cyclic_def)

lemma loop_carry_mutate_cyclic: "loop_carry_mutate lift ic cyclic k = Inr (cyclic, k)"
  by (simp add: cyclic_def)

lemma loop_carry_cyclic:
  assumes "\<not> is_const_one ext"
  shows "loop_carry commuting (cyclic_loop ext) k = Inl EmptyBack"
proof -
  have "loop_carry_mutate (lift_carried_values_out_of_stmt commuting k) {} (cyclic_loop ext) 0
      = Inl EmptyBack"
    unfolding cyclic_loop_def loop_carry_mutate.simps loop_carry_mutate_cyclic
    using assms
    by (simp add: loop_scope_fold st0_fold carry_mutate_cyclic lift_cyclic)
  then show ?thesis by (simp add: loop_carry_def)
qed

section \<open>The agglomeration loop\<close>

text \<open>The number of chains that are not empty.\<close>

definition ne :: "nat list list \<Rightarrow> nat" where
  "ne chs = length (filter (\<lambda>c. c \<noteq> []) chs)"

lemma ne_update:
  "i < length chs \<Longrightarrow>
   ne (chs[i := x]) + (if chs ! i \<noteq> [] then 1 else 0) = ne chs + (if x \<noteq> [] then 1 else 0)"
proof (induction chs arbitrary: i)
  case Nil
  then show ?case by simp
next
  case (Cons a chs)
  show ?case
  proof (cases i)
    case 0
    then show ?thesis by (simp add: ne_def)
  next
    case (Suc k)
    with Cons.prems have "k < length chs" by simp
    from Cons.IH[OF this] Suc show ?thesis by (auto simp: ne_def split: if_splits)
  qed
qed

lemma ne_pos: "i < length chs \<Longrightarrow> chs ! i \<noteq> [] \<Longrightarrow> 0 < ne chs"
  using ne_update[of i chs "[]"] by simp

lemma ne_merge:
  assumes "i < length chs" "j < length chs" "chs ! i \<noteq> []" "chs ! j \<noteq> []"
  shows "ne ((chs[i := chs ! i @ ys])[j := []]) < ne chs"
proof (cases "i = j")
  case True
  then show ?thesis using assms ne_update[of j chs "[]"] by simp
next
  case False
  have a: "ne (chs[i := chs ! i @ ys]) = ne chs"
    using ne_update[of i chs "chs ! i @ ys"] assms by simp
  have "j < length (chs[i := chs ! i @ ys])" "(chs[i := chs ! i @ ys]) ! j \<noteq> []"
    using assms False by auto
  from ne_update[OF this(1), of "[]"] this(2) a ne_pos[OF this]
  show ?thesis by simp
qed

lemma agg_inner_progress:
  "agg_inner i j chs d = Inr (chs', d') \<Longrightarrow> i < length chs \<Longrightarrow>
   (d' = d \<and> chs' = chs) \<or> (\<not> d' \<and> ne chs' < ne chs)"
proof (induction i j chs d rule: agg_inner.induct)
  case (1 i j chs d)
  show ?case
  proof (cases "j < length chs")
    case False
    with "1.prems" show ?thesis by (simp add: agg_inner.simps)
  next
    case jl: True
    show ?thesis
    proof (cases "chs ! j = []")
      case True
      with jl "1.prems" have "agg_inner i (j + 1) chs d = Inr (chs', d')"
        by (subst (asm) agg_inner.simps) simp
      from "1.IH"(1)[OF jl True this "1.prems"(2)] show ?thesis .
    next
      case nj: False
      show ?thesis
      proof (cases "chs ! i = []")
        case True
        with jl nj "1.prems" show ?thesis by (subst (asm) agg_inner.simps) simp
      next
        case ni: False
        show ?thesis
        proof (cases "last (chs ! i) = hd (chs ! j)")
          case True
          let ?c = "(chs[i := chs ! i @ tl (chs ! j)])[j := []]"
          from jl nj ni True "1.prems" have r: "agg_inner i (j + 1) ?c False = Inr (chs', d')"
            by (subst (asm) agg_inner.simps) simp
          have "i < length ?c" using "1.prems"(2) by simp
          from "1.IH"(2)[OF jl nj ni True r this]
          have "(d' = False \<and> chs' = ?c) \<or> (\<not> d' \<and> ne chs' < ne ?c)" .
          moreover have "ne ?c < ne chs" using ne_merge[OF "1.prems"(2) jl ni nj] .
          ultimately show ?thesis by auto
        next
          case False
          with jl nj ni "1.prems" have "agg_inner i (j + 1) chs d = Inr (chs', d')"
            by (subst (asm) agg_inner.simps) simp
          from "1.IH"(3)[OF jl nj ni False this "1.prems"(2)] show ?thesis .
        qed
      qed
    qed
  qed
qed

lemma agg_outer_progress:
  "agg_outer i chs d = Inr (chs', d') \<Longrightarrow>
   (d' = d \<and> chs' = chs) \<or> (\<not> d' \<and> ne chs' < ne chs)"
proof (induction i chs d rule: agg_outer.induct)
  case (1 i chs d)
  show ?case
  proof (cases "i < length chs")
    case False
    with "1.prems" show ?thesis by (simp add: agg_outer.simps)
  next
    case il: True
    show ?thesis
    proof (cases "chs ! i = []")
      case True
      with il "1.prems" have "agg_outer (i + 1) chs d = Inr (chs', d')"
        by (subst (asm) agg_outer.simps) simp
      from "1.IH"(1)[OF il True this] show ?thesis .
    next
      case ni: False
      from il ni "1.prems" obtain c1 d1 where
        in1: "agg_inner i 0 chs d = Inr (c1, d1)" and
        out: "agg_outer (i + 1) c1 d1 = Inr (chs', d')"
        by (subst (asm) agg_outer.simps) (auto split: sum.splits)
      from agg_inner_progress[OF in1 il]
      have a: "(d1 = d \<and> c1 = chs) \<or> (\<not> d1 \<and> ne c1 < ne chs)" .
      from "1.IH"(2)[OF il ni in1 refl out]
      have b: "(d' = d1 \<and> chs' = c1) \<or> (\<not> d' \<and> ne chs' < ne c1)" .
      from a b show ?thesis by auto
    qed
  qed
qed

definition merge_step :: "nat list list \<Rightarrow> nat \<Rightarrow> nat \<Rightarrow> nat list list" where
  "merge_step chs i j = (chs[i := chs ! i @ tl (chs ! j)])[j := []]"

definition mergeable :: "nat list list \<Rightarrow> nat \<Rightarrow> nat \<Rightarrow> bool" where
  "mergeable chs i j \<longleftrightarrow>
     i < length chs \<and> j < length chs \<and> chs ! i \<noteq> [] \<and> chs ! j \<noteq> [] \<and>
     last (chs ! i) = hd (chs ! j)"

lemma agg_inner_preserves:
  assumes step: "\<And>chs i j. P chs \<Longrightarrow> mergeable chs i j \<Longrightarrow> P (merge_step chs i j)"
  shows "agg_inner i j chs d = Inr (chs', d') \<Longrightarrow> i < length chs \<Longrightarrow> P chs \<Longrightarrow> P chs'"
proof (induction i j chs d rule: agg_inner.induct)
  case (1 i j chs d)
  show ?case
  proof (cases "j < length chs")
    case False
    with "1.prems" show ?thesis by (simp add: agg_inner.simps)
  next
    case jl: True
    show ?thesis
    proof (cases "chs ! j = []")
      case True
      with jl "1.prems" have "agg_inner i (j + 1) chs d = Inr (chs', d')"
        by (subst (asm) agg_inner.simps) simp
      from "1.IH"(1)[OF jl True this "1.prems"(2,3)] show ?thesis .
    next
      case nj: False
      show ?thesis
      proof (cases "chs ! i = []")
        case True
        with jl nj "1.prems" show ?thesis by (subst (asm) agg_inner.simps) simp
      next
        case ni: False
        show ?thesis
        proof (cases "last (chs ! i) = hd (chs ! j)")
          case True
          let ?c = "(chs[i := chs ! i @ tl (chs ! j)])[j := []]"
          from jl nj ni True "1.prems" have r: "agg_inner i (j + 1) ?c False = Inr (chs', d')"
            by (subst (asm) agg_inner.simps) simp
          have il: "i < length ?c" using "1.prems"(2) by simp
          have "mergeable chs i j"
            using "1.prems"(2) jl ni nj True by (simp add: mergeable_def)
          from step[OF "1.prems"(3) this] have "P ?c" by (simp add: merge_step_def)
          from "1.IH"(2)[OF jl nj ni True r il this] show ?thesis .
        next
          case False
          with jl nj ni "1.prems" have "agg_inner i (j + 1) chs d = Inr (chs', d')"
            by (subst (asm) agg_inner.simps) simp
          from "1.IH"(3)[OF jl nj ni False this "1.prems"(2,3)] show ?thesis .
        qed
      qed
    qed
  qed
qed

lemma agg_outer_preserves:
  assumes step: "\<And>chs i j. P chs \<Longrightarrow> mergeable chs i j \<Longrightarrow> P (merge_step chs i j)"
  shows "agg_outer i chs d = Inr (chs', d') \<Longrightarrow> P chs \<Longrightarrow> P chs'"
proof (induction i chs d rule: agg_outer.induct)
  case (1 i chs d)
  show ?case
  proof (cases "i < length chs")
    case False
    with "1.prems" show ?thesis by (simp add: agg_outer.simps)
  next
    case il: True
    show ?thesis
    proof (cases "chs ! i = []")
      case True
      with il "1.prems" have "agg_outer (i + 1) chs d = Inr (chs', d')"
        by (subst (asm) agg_outer.simps) simp
      from "1.IH"(1)[OF il True this "1.prems"(2)] show ?thesis .
    next
      case ni: False
      from il ni "1.prems" obtain c1 d1 where
        in1: "agg_inner i 0 chs d = Inr (c1, d1)" and
        out: "agg_outer (i + 1) c1 d1 = Inr (chs', d')"
        by (subst (asm) agg_outer.simps) (auto split: sum.splits)
      have "P c1" using agg_inner_preserves[of P, OF step in1 il "1.prems"(2)] .
      from "1.IH"(2)[OF il ni in1 refl out this] show ?thesis .
    qed
  qed
qed

definition swap_pop :: "nat list list \<Rightarrow> nat \<Rightarrow> nat list list" where
  "swap_pop chs i = butlast (chs[i := last chs])"

lemma compact_preserves:
  assumes pop: "\<And>chs i. P chs \<Longrightarrow> i < length chs \<Longrightarrow> chs ! i = [] \<Longrightarrow> P (swap_pop chs i)"
  shows "P chs \<Longrightarrow> P (compact i chs)"
proof (induction i chs rule: compact.induct)
  case (1 i chs)
  show ?case
  proof (cases "i < length chs")
    case False
    with "1.prems" show ?thesis by (simp add: compact.simps)
  next
    case il: True
    show ?thesis
    proof (cases "chs ! i = []")
      case True
      have "P (butlast (chs[i := last chs]))"
        using pop[OF "1.prems" il True] by (simp add: swap_pop_def)
      from "1.IH"(1)[OF il True this] il True show ?thesis
        by (subst compact.simps) simp
    next
      case False
      from "1.IH"(2)[OF il False "1.prems"] il False show ?thesis
        by (subst compact.simps) simp
    qed
  qed
qed

lemma mset_swap_pop:
  assumes "i < length chs"
  shows "add_mset (chs ! i) (mset (swap_pop chs i)) = mset chs"
proof -
  from assms have ne: "chs \<noteq> []" by auto
  then have split: "chs = butlast chs @ [last chs]" by simp
  show ?thesis
  proof (cases "i = length chs - 1")
    case True
    then have "chs ! i = last chs" using ne by (simp add: last_conv_nth)
    moreover have "chs[i := last chs] = chs" using True ne
      by (metis calculation list_update_id)
    ultimately show ?thesis unfolding swap_pop_def
      by (metis split mset.simps(2) mset_append union_mset_add_mset_right add.right_neutral mset.simps(1))
  next
    case False
    with assms have ib: "i < length (butlast chs)" by simp
    have "chs[i := last chs] = (butlast chs)[i := last chs] @ [last chs]"
      by (metis ib list_update_append1 split)
    then have "swap_pop chs i = (butlast chs)[i := last chs]"
      by (simp add: swap_pop_def)
    moreover have "butlast chs ! i = chs ! i" using ib by (simp add: nth_butlast)
    moreover have "chs ! i \<in># mset (butlast chs)"
      using ib calculation(2) by (metis nth_mem set_mset_mset)
    ultimately have "add_mset (chs ! i) (mset (swap_pop chs i)) = add_mset (last chs) (mset (butlast chs))"
      using ib by (simp add: mset_update)
    also have "\<dots> = mset chs"
      by (metis split mset.simps(2) mset_append union_mset_add_mset_right add.right_neutral mset.simps(1))
    finally show ?thesis .
  qed
qed

lemma ne_swap_pop:
  "i < length chs \<Longrightarrow> chs ! i = [] \<Longrightarrow> ne (swap_pop chs i) = ne chs"
proof -
  assume a: "i < length chs" "chs ! i = []"
  have "ne chs = size (filter_mset (\<lambda>c. c \<noteq> []) (mset chs))" for chs
    by (simp add: ne_def flip: mset_filter)
  then show ?thesis using mset_swap_pop[OF a(1)] a(2)
    by (metis (mono_tags, lifting) filter_mset_add_mset)
qed

lemma ne_compact: "ne (compact i chs) = ne chs"
proof -
  have "ne (compact i chs) = ne chs \<and> True"
    by (rule compact_preserves[of "\<lambda>c. ne c = ne chs \<and> True"]) (simp_all add: ne_swap_pop)
  then show ?thesis by simp
qed

lemma agglomerate_returns: "\<exists>r. agglomerate chs = Some r"
proof (induction chs rule: measure_induct_rule[of ne])
  case (less chs)
  show ?case
  proof (cases "agg_outer 0 chs True")
    case (Inl e)
    then show ?thesis by (subst agglomerate.simps) simp
  next
    case (Inr p)
    obtain chs1 d where p: "p = (chs1, d)" by (cases p)
    show ?thesis
    proof (cases d)
      case True
      with Inr p show ?thesis by (subst agglomerate.simps) simp
    next
      case False
      from agg_outer_progress[OF Inr[unfolded p]] False
      have "ne chs1 < ne chs" by auto
      then have "ne (compact 0 chs1) < ne chs" by (simp add: ne_compact)
      from less.IH[OF this] obtain r where "agglomerate (compact 0 chs1) = Some r" ..
      with Inr p False show ?thesis by (subst agglomerate.simps) simp
    qed
  qed
qed

lemma agglomerate_preserves:
  assumes step: "\<And>chs i j. P chs \<Longrightarrow> mergeable chs i j \<Longrightarrow> P (merge_step chs i j)"
    and pop: "\<And>chs i. P chs \<Longrightarrow> i < length chs \<Longrightarrow> chs ! i = [] \<Longrightarrow> P (swap_pop chs i)"
  shows "agglomerate chs = Some (Inr r) \<Longrightarrow> P chs \<Longrightarrow> P r"
proof (induction chs rule: measure_induct_rule[of ne])
  case (less chs)
  from less.prems(1) obtain chs1 d where
    o: "agg_outer 0 chs True = Inr (chs1, d)"
    by (subst (asm) agglomerate.simps) (auto split: sum.splits)
  have P1: "P chs1" using agg_outer_preserves[of P, OF step o less.prems(2)] .
  have P2: "P (compact 0 chs1)" using compact_preserves[of P, OF pop P1] .
  show ?case
  proof (cases d)
    case True
    with o less.prems(1) have "r = compact 0 chs1"
      by (subst (asm) agglomerate.simps) simp
    with P2 show ?thesis by simp
  next
    case False
    with o less.prems(1) have rec: "agglomerate (compact 0 chs1) = Some (Inr r)"
      by (subst (asm) agglomerate.simps) simp
    from agg_outer_progress[OF o] False have "ne (compact 0 chs1) < ne chs"
      by (auto simp: ne_compact)
    from less.IH[OF this rec P2] show ?thesis .
  qed
qed

lemma agg_inner_done:
  "agg_inner i j chs d = Inr (chs', True) \<Longrightarrow> i < length chs \<Longrightarrow>
   chs' = chs \<and> (\<forall>j'\<ge>j. \<not> mergeable chs i j')"
proof (induction i j chs d rule: agg_inner.induct)
  case (1 i j chs d)
  show ?case
  proof (cases "j < length chs")
    case False
    with "1.prems" show ?thesis by (simp add: agg_inner.simps mergeable_def)
  next
    case jl: True
    have step: "\<not> mergeable chs i j \<Longrightarrow> \<forall>j'\<ge>j + 1. \<not> mergeable chs i j'
      \<Longrightarrow> \<forall>j'\<ge>j. \<not> mergeable chs i j'"
      by (metis Suc_eq_plus1 Suc_leI le_neq_implies_less)
    show ?thesis
    proof (cases "chs ! j = []")
      case True
      with jl "1.prems" have "agg_inner i (j + 1) chs d = Inr (chs', True)"
        by (subst (asm) agg_inner.simps) simp
      from "1.IH"(1)[OF jl True this "1.prems"(2)] True step
      show ?thesis by (simp add: mergeable_def)
    next
      case nj: False
      show ?thesis
      proof (cases "chs ! i = []")
        case True
        with jl nj "1.prems" show ?thesis by (subst (asm) agg_inner.simps) simp
      next
        case ni: False
        show ?thesis
        proof (cases "last (chs ! i) = hd (chs ! j)")
          case True
          let ?c = "(chs[i := chs ! i @ tl (chs ! j)])[j := []]"
          from jl nj ni True "1.prems" have r: "agg_inner i (j + 1) ?c False = Inr (chs', True)"
            by (subst (asm) agg_inner.simps) simp
          have "i < length ?c" using "1.prems"(2) by simp
          from agg_inner_progress[OF r this] show ?thesis by simp
        next
          case False
          with jl nj ni "1.prems" have "agg_inner i (j + 1) chs d = Inr (chs', True)"
            by (subst (asm) agg_inner.simps) simp
          from "1.IH"(3)[OF jl nj ni False this "1.prems"(2)] False step
          show ?thesis by (simp add: mergeable_def)
        qed
      qed
    qed
  qed
qed

lemma agg_outer_done:
  "agg_outer i chs d = Inr (chs', True) \<Longrightarrow>
   chs' = chs \<and> (\<forall>i'\<ge>i. \<forall>j. \<not> mergeable chs i' j)"
proof (induction i chs d rule: agg_outer.induct)
  case (1 i chs d)
  show ?case
  proof (cases "i < length chs")
    case False
    with "1.prems" show ?thesis by (simp add: agg_outer.simps mergeable_def)
  next
    case il: True
    have step: "\<forall>j. \<not> mergeable chs i j \<Longrightarrow> \<forall>i'\<ge>i + 1. \<forall>j. \<not> mergeable chs i' j
      \<Longrightarrow> \<forall>i'\<ge>i. \<forall>j. \<not> mergeable chs i' j"
      by (metis Suc_eq_plus1 Suc_leI le_neq_implies_less)
    show ?thesis
    proof (cases "chs ! i = []")
      case True
      with il "1.prems" have "agg_outer (i + 1) chs d = Inr (chs', True)"
        by (subst (asm) agg_outer.simps) simp
      from "1.IH"(1)[OF il True this] True step
      show ?thesis by (simp add: mergeable_def)
    next
      case ni: False
      from il ni "1.prems" obtain c1 d1 where
        in1: "agg_inner i 0 chs d = Inr (c1, d1)" and
        out: "agg_outer (i + 1) c1 d1 = Inr (chs', True)"
        by (subst (asm) agg_outer.simps) (auto split: sum.splits)
      from agg_outer_progress[OF out] have d1: "d1 = True" by auto
      from agg_inner_done[OF in1[unfolded d1] il]
      have c1: "c1 = chs" and nm: "\<forall>j'\<ge>0. \<not> mergeable chs i j'" by auto
      from "1.IH"(2)[OF il ni in1 refl out] c1
      have "chs' = chs \<and> (\<forall>i'\<ge>i + 1. \<forall>j. \<not> mergeable chs i' j)" by simp
      with nm step show ?thesis by simp
    qed
  qed
qed

definition no_merge :: "nat list list \<Rightarrow> bool" where
  "no_merge chs \<longleftrightarrow> (\<forall>a\<in>set chs. \<forall>b\<in>set chs. a \<noteq> [] \<and> b \<noteq> [] \<longrightarrow> last a \<noteq> hd b)"

lemma no_merge_iff: "no_merge chs \<longleftrightarrow> (\<forall>i j. \<not> mergeable chs i j)"
  unfolding no_merge_def mergeable_def
  by (metis in_set_conv_nth)

lemma agg_inner_fix:
  "\<forall>j'. \<not> mergeable chs i j' \<Longrightarrow> i < length chs \<Longrightarrow> chs ! i \<noteq> [] \<Longrightarrow>
   agg_inner i j chs d = Inr (chs, d)"
proof (induction "length chs - j" arbitrary: j)
  case 0
  then show ?case by (subst agg_inner.simps) simp
next
  case (Suc n)
  then have jl: "j < length chs" and n: "n = length chs - (j + 1)" by auto
  from Suc.prems(1) have "\<not> mergeable chs i j" by blast
  with jl Suc.prems(2,3) have "chs ! j = [] \<or> last (chs ! i) \<noteq> hd (chs ! j)"
    by (auto simp: mergeable_def)
  with Suc.hyps(1)[OF n Suc.prems] jl Suc.prems(3) show ?case
    by (subst agg_inner.simps) auto
qed

lemma agg_outer_fix:
  "\<forall>i j. \<not> mergeable chs i j \<Longrightarrow> agg_outer i chs d = Inr (chs, d)"
proof (induction "length chs - i" arbitrary: i)
  case 0
  then show ?case by (subst agg_outer.simps) simp
next
  case (Suc n)
  then have il: "i < length chs" and n: "n = length chs - (i + 1)" by auto
  from Suc.hyps(1)[OF n Suc.prems] have rec: "agg_outer (i + 1) chs d = Inr (chs, d)" .
  show ?case
  proof (cases "chs ! i = []")
    case True
    with il rec show ?thesis by (subst agg_outer.simps) simp
  next
    case False
    from Suc.prems have "\<forall>j'. \<not> mergeable chs i j'" by blast
    from agg_inner_fix[OF this il False, of 0 d] il False rec show ?thesis
      by (subst agg_outer.simps) simp
  qed
qed

lemma compact_id: "[] \<notin> set chs \<Longrightarrow> compact i chs = chs"
proof (induction "length chs - i" arbitrary: i)
  case 0
  then show ?case by (subst compact.simps) simp
next
  case (Suc n)
  then have il: "i < length chs" and n: "n = length chs - (i + 1)" by auto
  from Suc.prems il have "chs ! i \<noteq> []" by (metis nth_mem)
  with Suc.hyps(1)[OF n Suc.prems] il show ?case by (subst compact.simps) simp
qed

lemma set_swap_pop: "i < length chs \<Longrightarrow> set (swap_pop chs i) \<subseteq> set chs"
  using mset_swap_pop[of i chs] by (metis set_mset_mset set_mset_add_mset_insert subset_insertI)

lemma set_compact: "set (compact i chs) \<subseteq> set chs"
  by (rule compact_preserves[of "\<lambda>c. set c \<subseteq> set chs"]) (use set_swap_pop in auto)

lemma compact_no_empty:
  "\<forall>k<i. k < length chs \<longrightarrow> chs ! k \<noteq> [] \<Longrightarrow> \<forall>k<length (compact i chs). compact i chs ! k \<noteq> []"
proof (induction i chs rule: compact.induct)
  case (1 i chs)
  show ?case
  proof (cases "i < length chs")
    case False
    with "1.prems" show ?thesis by (subst (1 2) compact.simps) simp
  next
    case il: True
    show ?thesis
    proof (cases "chs ! i = []")
      case True
      have "\<forall>k<i. k < length (butlast (chs[i := last chs])) \<longrightarrow> butlast (chs[i := last chs]) ! k \<noteq> []"
        using "1.prems" by (simp add: nth_butlast)
      from "1.IH"(1)[OF il True this] il True show ?thesis
        by (subst (1 2) compact.simps) simp
    next
      case False
      have "\<forall>k<i + 1. k < length chs \<longrightarrow> chs ! k \<noteq> []"
        using "1.prems" False by (metis Suc_eq_plus1 less_Suc_eq)
      from "1.IH"(2)[OF il False this] il False show ?thesis
        by (subst (1 2) compact.simps) simp
    qed
  qed
qed

lemma compact0_no_empty: "[] \<notin> set (compact 0 chs)"
  using compact_no_empty[of 0 chs] by (metis in_set_conv_nth not_less_zero)

lemma no_merge_subset: "no_merge chs \<Longrightarrow> set chs' \<subseteq> set chs \<Longrightarrow> no_merge chs'"
  unfolding no_merge_def by blast

lemma agglomerate_result:
  "agglomerate chs = Some (Inr r) \<Longrightarrow> [] \<notin> set r \<and> no_merge r"
proof (induction chs rule: measure_induct_rule[of ne])
  case (less chs)
  from less.prems(1) obtain chs1 d where
    o: "agg_outer 0 chs True = Inr (chs1, d)"
    by (subst (asm) agglomerate.simps) (auto split: sum.splits)
  show ?case
  proof (cases d)
    case True
    with o less.prems(1) have r: "r = compact 0 chs1"
      by (subst (asm) agglomerate.simps) simp
    from o True have "agg_outer 0 chs True = Inr (chs1, True)" by simp
    from agg_outer_done[OF this] have "chs1 = chs" "no_merge chs"
      by (auto simp: no_merge_iff)
    with r show ?thesis
      using compact0_no_empty[of chs] no_merge_subset[OF _ set_compact[of 0 chs]] by simp
  next
    case False
    with o less.prems(1) have rec: "agglomerate (compact 0 chs1) = Some (Inr r)"
      by (subst (asm) agglomerate.simps) simp
    from agg_outer_progress[OF o] False have "ne (compact 0 chs1) < ne chs"
      by (auto simp: ne_compact)
    from less.IH[OF this rec] show ?thesis .
  qed
qed

lemma agglomerate_fixed:
  assumes "[] \<notin> set r" "no_merge r"
  shows "agglomerate r = Some (Inr r)"
proof -
  from assms(2) have "agg_outer 0 r True = Inr (r, True)"
    by (simp add: agg_outer_fix no_merge_iff)
  then show ?thesis using compact_id[OF assms(1)]
    by (subst agglomerate.simps) simp
qed

lemma agglomerate_fixed_point:
  "agglomerate chs = Some (Inr r) \<Longrightarrow> agglomerate r = Some (Inr r)"
  using agglomerate_result[of chs r] agglomerate_fixed[of r] by simp

text \<open>
  Claim C4 fails on the code where two groups carry into each other. The loop
  \<^verbatim>\<open>while (!done)\<close> itself always returns (\<open>agglomerate_returns\<close>), and chains that it
  returns are a fixed point (\<open>agglomerate_fixed_point\<close>); but the test
  \<^verbatim>\<open>chains[i].back() == chains[j].front()\<close> has no guard \<^verbatim>\<open>i != j\<close>, as the edge detection
  has. For \<^verbatim>\<open>out[x] = in[k+1] + in[1+k] + in[x] + in[x+1]\<close> the edges are \<open>[1, 0]\<close>,
  \<open>[0, 1]\<close> and \<open>[2, 3]\<close>. The first pass merges the first two into \<open>[1, 0, 1]\<close>; in the
  second pass this chain ends where it starts, is inserted into itself and cleared, and
  at the next \<^verbatim>\<open>j\<close> the code takes \<^verbatim>\<open>back()\<close> of the chain it has just emptied. The pass
  returns no statement for the loop.
\<close>

theorem agglomerate_cycle_empty_back:
  "find_chains commuting loop_scope
     (group_loads {} (find_loads_stmt (substitute_in_all_lets_stmt cyclic)) []) =
     [[1, 0], [0, 1], [2, 3]] \<and>
   agglomerate [[1, 0], [0, 1], [2, 3]] = Some (Inl EmptyBack) \<and>
   loop_carry commuting (cyclic_loop (var ''n'')) 8 = Inl EmptyBack"
proof (intro conjI)
  show "find_chains commuting loop_scope
      (group_loads {} (find_loads_stmt (substitute_in_all_lets_stmt cyclic)) []) =
      [[1, 0], [0, 1], [2, 3]]"
    by (simp only: cyclic_group cyclic_edges)
  show "agglomerate [[1, 0], [0, 1], [2, 3]] = Some (Inl EmptyBack)"
    by (rule agglomerate_cyclic)
  show "loop_carry commuting (cyclic_loop (var ''n'')) 8 = Inl EmptyBack"
    by (rule loop_carry_cyclic) (simp add: var_def)
qed

section \<open>The chains after agglomeration\<close>

definition chain_ok :: "nat list list \<Rightarrow> bool" where
  "chain_ok chs \<longleftrightarrow> (\<forall>c\<in>set chs. c = [] \<or> 2 \<le> length c)"

definition srcs :: "nat list list \<Rightarrow> nat multiset" where
  "srcs chs = sum_list (map (\<lambda>c. mset (butlast c)) chs)"

definition tgts :: "nat list list \<Rightarrow> nat multiset" where
  "tgts chs = sum_list (map (\<lambda>c. mset (tl c)) chs)"

lemma sum_list_map_update:
  fixes g :: "'a \<Rightarrow> 'b multiset"
  shows "i < length xs \<Longrightarrow> sum_list (map g (xs[i := y])) + g (xs ! i) = sum_list (map g xs) + g y"
proof (induction xs arbitrary: i)
  case Nil
  then show ?case by simp
next
  case (Cons a xs)
  show ?case
  proof (cases i)
    case 0
    then show ?thesis by simp
  next
    case (Suc k)
    with Cons.prems have "k < length xs" by simp
    from Cons.IH[OF this] Suc show ?thesis by (simp add: ac_simps)
  qed
qed

lemma merge_step_sum:
  fixes g :: "nat list \<Rightarrow> nat multiset"
  assumes m: "mergeable chs i j"
    and g: "g (chs ! i @ tl (chs ! j)) = g (chs ! i) + g (chs ! j)"
    and e: "g [] = {#}"
  shows "sum_list (map g (merge_step chs i j)) \<subseteq># sum_list (map g chs)"
proof -
  from m have il: "i < length chs" and jl: "j < length chs" by (auto simp: mergeable_def)
  let ?c1 = "chs[i := chs ! i @ tl (chs ! j)]"
  show ?thesis
  proof (cases "i = j")
    case True
    then have "merge_step chs i j = chs[j := []]" by (simp add: merge_step_def)
    with sum_list_map_update[OF jl, of g "[]"] e
    have "sum_list (map g (merge_step chs i j)) + g (chs ! j) = sum_list (map g chs)" by simp
    then show ?thesis by (metis mset_subset_eq_add_left)
  next
    case False
    from sum_list_map_update[OF il, of g "chs ! i @ tl (chs ! j)"] g
    have "sum_list (map g ?c1) + g (chs ! i) = sum_list (map g chs) + g (chs ! j) + g (chs ! i)"
      by (simp add: ac_simps)
    then have a: "sum_list (map g ?c1) = sum_list (map g chs) + g (chs ! j)" by simp
    have "j < length ?c1" "?c1 ! j = chs ! j" using jl False by auto
    with sum_list_map_update[of j ?c1 g "[]"] e
    have "sum_list (map g (?c1[j := []])) + g (chs ! j) = sum_list (map g ?c1)" by simp
    with a have "sum_list (map g (merge_step chs i j)) = sum_list (map g chs)"
      by (simp add: merge_step_def)
    then show ?thesis by simp
  qed
qed

lemma swap_pop_sum:
  fixes g :: "nat list \<Rightarrow> nat multiset"
  assumes "i < length chs" "chs ! i = []" "g [] = {#}"
  shows "sum_list (map g (swap_pop chs i)) = sum_list (map g chs)"
proof -
  have "sum_list (map g xs) = sum_mset (image_mset g (mset xs))" for xs
    by (metis mset_map sum_mset_sum_list)
  with mset_swap_pop[OF assms(1)] assms(2,3) show ?thesis
    by (metis add.left_neutral image_mset_add_mset sum_mset.insert)
qed

definition functional :: "nat list list \<Rightarrow> bool" where
  "functional chs \<longleftrightarrow>
     chain_ok chs \<and> (\<forall>x. count (srcs chs) x \<le> 1) \<and> (\<forall>x. count (tgts chs) x \<le> 1)"

lemma chain_ok_merge: "chain_ok chs \<Longrightarrow> mergeable chs i j \<Longrightarrow> chain_ok (merge_step chs i j)"
proof -
  assume ok: "chain_ok chs" and m: "mergeable chs i j"
  then have "2 \<le> length (chs ! i)" by (auto simp: chain_ok_def mergeable_def)
  then have "2 \<le> length (chs ! i @ tl (chs ! j))" by simp
  moreover have "set (merge_step chs i j) \<subseteq> insert [] (insert (chs ! i @ tl (chs ! j)) (set chs))"
    unfolding merge_step_def
    by (meson insert_mono order_trans set_update_subset_insert)
  ultimately show ?thesis using ok unfolding chain_ok_def by blast
qed

lemma chain_ok_pop: "chain_ok chs \<Longrightarrow> i < length chs \<Longrightarrow> chain_ok (swap_pop chs i)"
  using set_swap_pop[of i chs] unfolding chain_ok_def by blast

lemma functional_merge:
  assumes f: "functional chs" and m: "mergeable chs i j"
  shows "functional (merge_step chs i j)"
proof -
  from f have ok: "chain_ok chs" by (simp add: functional_def)
  from m have ni: "chs ! i \<noteq> []" and nj: "chs ! j \<noteq> []" and eq: "last (chs ! i) = hd (chs ! j)"
    and jl: "j < length chs"
    by (auto simp: mergeable_def)
  from ok jl nj have l2: "2 \<le> length (chs ! j)" by (auto simp: chain_ok_def)
  then have tj: "tl (chs ! j) \<noteq> []" by (cases "chs ! j") auto
  have "butlast (chs ! i @ tl (chs ! j)) = chs ! i @ butlast (tl (chs ! j))"
    using tj by (simp add: butlast_append)
  moreover have "mset (chs ! i) = mset (butlast (chs ! i)) + {#last (chs ! i)#}"
    using ni by (metis append_butlast_last_id mset.simps(1,2) mset_append union_mset_add_mset_right add.right_neutral)
  moreover have "butlast (chs ! j) = hd (chs ! j) # butlast (tl (chs ! j))"
    using nj tj by (cases "chs ! j") auto
  ultimately have b: "mset (butlast (chs ! i @ tl (chs ! j))) =
      mset (butlast (chs ! i)) + mset (butlast (chs ! j))"
    using eq by simp
  have t: "mset (tl (chs ! i @ tl (chs ! j))) = mset (tl (chs ! i)) + mset (tl (chs ! j))"
    using ni by simp
  have s: "srcs (merge_step chs i j) \<subseteq># srcs chs"
    unfolding srcs_def by (rule merge_step_sum[OF m]) (use b in simp_all)
  have g: "tgts (merge_step chs i j) \<subseteq># tgts chs"
    unfolding tgts_def by (rule merge_step_sum[OF m]) (use t in simp_all)
  from f s g chain_ok_merge[OF ok m] show ?thesis
    unfolding functional_def
    by (meson mset_subset_eq_count order_trans)
qed

lemma functional_pop:
  assumes "functional chs" "i < length chs" "chs ! i = []"
  shows "functional (swap_pop chs i)"
  using assms chain_ok_pop[of chs i]
  by (simp add: functional_def srcs_def tgts_def swap_pop_sum)

lemma mset_concat_last:
  "[] \<notin> set r \<Longrightarrow> mset (concat r) = srcs r + mset (map last r)"
proof (induction r)
  case Nil
  then show ?case by (simp add: srcs_def)
next
  case (Cons c r)
  then have "c \<noteq> []" by auto
  then have "mset c = mset (butlast c) + {#last c#}"
    by (metis append_butlast_last_id mset.simps(1,2) mset_append union_mset_add_mset_right add.right_neutral)
  with Cons show ?case by (simp add: srcs_def)
qed

lemma mset_concat_hd:
  "[] \<notin> set r \<Longrightarrow> mset (concat r) = mset (map hd r) + tgts r"
proof (induction r)
  case Nil
  then show ?case by (simp add: tgts_def)
next
  case (Cons c r)
  then have "c \<noteq> []" by auto
  then have "mset c = {#hd c#} + mset (tl c)" by (cases c) auto
  with Cons show ?case by (simp add: tgts_def)
qed

lemma functional_distinct:
  assumes f: "functional r" and ne: "[] \<notin> set r" and nm: "no_merge r"
  shows "distinct (concat r)"
proof -
  have "count (mset (concat r)) x \<le> 1" for x
  proof (cases "x \<in> set (map last r)")
    case False
    then have "count (mset (map last r)) x = 0" by (metis count_mset_0_iff)
    with mset_concat_last[OF ne] f show ?thesis by (simp add: functional_def)
  next
    case True
    then obtain a where a: "a \<in> set r" "x = last a" by auto
    have "x \<notin> set (map hd r)"
    proof
      assume "x \<in> set (map hd r)"
      then obtain b where "b \<in> set r" "x = hd b" by auto
      with a nm ne show False unfolding no_merge_def by metis
    qed
    then have "count (mset (map hd r)) x = 0" by (metis count_mset_0_iff)
    with mset_concat_hd[OF ne] f show ?thesis by (simp add: functional_def)
  qed
  then show ?thesis
    by (metis count_mset_0_iff distinct_count_atmost_1 le_antisym less_one linorder_not_less)
qed

lemma edges_functional:
  assumes "\<forall>c\<in>set chs. length c = 2" "distinct (map hd chs)" "distinct (map last chs)"
  shows "functional chs"
proof -
  have c: "\<forall>c\<in>set chs. butlast c = [hd c] \<and> tl c = [last c]"
  proof
    fix c assume "c \<in> set chs"
    with assms(1) have "length c = 2" by simp
    then obtain a b where "c = [a, b]"
      by (metis One_nat_def Suc_1 length_0_conv length_Suc_conv)
    then show "butlast c = [hd c] \<and> tl c = [last c]" by simp
  qed
  have "srcs chs = mset (map hd chs)" "tgts chs = mset (map last chs)"
    unfolding srcs_def tgts_def using c by (induction chs) auto
  moreover have "count (mset (map hd chs)) x \<le> 1" "count (mset (map last chs)) x \<le> 1" for x
    using assms(2,3) by (simp_all add: distinct_count_atmost_1)
  moreover have "chain_ok chs" using assms(1) by (simp add: chain_ok_def)
  ultimately show ?thesis by (simp add: functional_def)
qed

lemma elems_merge:
  assumes "mergeable chs i j"
  shows "set (concat (merge_step chs i j)) \<subseteq> set (concat chs)"
proof -
  from assms have il: "i < length chs" and jl: "j < length chs" by (auto simp: mergeable_def)
  have "set (merge_step chs i j) \<subseteq> insert [] (insert (chs ! i @ tl (chs ! j)) (set chs))"
    unfolding merge_step_def
    by (meson insert_mono order_trans set_update_subset_insert)
  moreover have "set (chs ! i @ tl (chs ! j)) \<subseteq> set (concat chs)"
  proof -
    have "chs ! i \<in> set chs" "chs ! j \<in> set chs" using il jl by simp_all
    moreover have "set (tl (chs ! j)) \<subseteq> set (chs ! j)" by (cases "chs ! j") auto
    ultimately show ?thesis by fastforce
  qed
  ultimately show ?thesis
  proof -
    assume a: "set (merge_step chs i j) \<subseteq> insert [] (insert (chs ! i @ tl (chs ! j)) (set chs))"
      and b: "set (chs ! i @ tl (chs ! j)) \<subseteq> set (concat chs)"
    show ?thesis
    proof
      fix x assume "x \<in> set (concat (merge_step chs i j))"
      then obtain c where c: "c \<in> set (merge_step chs i j)" "x \<in> set c" by auto
      with a consider "c = []" | "c = chs ! i @ tl (chs ! j)" | "c \<in> set chs" by blast
      then show "x \<in> set (concat chs)"
      proof cases
        case 1
        with c(2) show ?thesis by simp
      next
        case 2
        with c(2) have "x \<in> set (chs ! i @ tl (chs ! j))" by simp
        with b show ?thesis by blast
      next
        case 3
        with c(2) show ?thesis by auto
      qed
    qed
  qed
qed

lemma elems_pop: "i < length chs \<Longrightarrow> set (concat (swap_pop chs i)) \<subseteq> set (concat chs)"
  using set_swap_pop[of i chs] by auto

lemma agglomerate_elems:
  assumes "agglomerate chs = Some (Inr r)"
  shows "set (concat r) \<subseteq> set (concat chs)"
proof (rule agglomerate_preserves[where P = "\<lambda>c. set (concat c) \<subseteq> set (concat chs)", OF _ _ assms])
  fix c i j
  assume "set (concat c) \<subseteq> set (concat chs)" "mergeable c i j"
  with elems_merge[of c i j] show "set (concat (merge_step c i j)) \<subseteq> set (concat chs)"
    by (rule_tac order_trans)
next
  fix c :: "nat list list" and i
  assume "set (concat c) \<subseteq> set (concat chs)" "i < length c"
  with elems_pop[of i c] show "set (concat (swap_pop c i)) \<subseteq> set (concat chs)"
    by (rule_tac order_trans)
next
  show "set (concat chs) \<subseteq> set (concat chs)" by (rule order_refl)
qed

lemma agglomerate_chain_ok:
  assumes "agglomerate chs = Some (Inr r)" "chain_ok chs"
  shows "\<forall>c\<in>set r. 2 \<le> length c"
proof -
  have "chain_ok r"
  proof (rule agglomerate_preserves[where P = chain_ok, OF _ _ assms])
    show "\<And>c i j. chain_ok c \<Longrightarrow> mergeable c i j \<Longrightarrow> chain_ok (merge_step c i j)"
      by (rule chain_ok_merge)
    show "\<And>c i. chain_ok c \<Longrightarrow> i < length c \<Longrightarrow> c ! i = [] \<Longrightarrow> chain_ok (swap_pop c i)"
      by (rule chain_ok_pop)
  qed
  moreover from agglomerate_result[OF assms(1)] have "[] \<notin> set r" by simp
  ultimately show ?thesis
    unfolding chain_ok_def by metis
qed

lemma agglomerate_functional:
  assumes "agglomerate chs = Some (Inr r)" "functional chs"
  shows "distinct (concat r)"
proof -
  have "functional r"
  proof (rule agglomerate_preserves[where P = functional, OF _ _ assms])
    show "\<And>c i j. functional c \<Longrightarrow> mergeable c i j \<Longrightarrow> functional (merge_step c i j)"
      by (rule functional_merge)
    show "\<And>c i. functional c \<Longrightarrow> i < length c \<Longrightarrow> c ! i = [] \<Longrightarrow> functional (swap_pop c i)"
      by (rule functional_pop)
  qed
  with agglomerate_result[OF assms(1)] show ?thesis
    by (simp add: functional_distinct)
qed

text \<open>
  Claim C5, as amended. After agglomeration every chain has at least two members and
  holds only group indices of the edges it started from. A group index occurs at most
  once overall, hence in at most one chain, when no group is the source of two edges and
  none is the target of two; the code does nothing to make it so otherwise.
\<close>

theorem agglomerate_chains:
  assumes "agglomerate chs = Some (Inr r)" and "\<forall>c\<in>set chs. length c = 2"
  shows "(\<forall>c\<in>set r. 2 \<le> length c) \<and> set (concat r) \<subseteq> set (concat chs) \<and>
         (distinct (map hd chs) \<and> distinct (map last chs) \<longrightarrow> distinct (concat r))"
proof -
  from assms(2) have "chain_ok chs" by (simp add: chain_ok_def)
  with assms(1) have a: "\<forall>c\<in>set r. 2 \<le> length c" by (rule agglomerate_chain_ok)
  have b: "set (concat r) \<subseteq> set (concat chs)" using assms(1) by (rule agglomerate_elems)
  have c: "distinct (concat r)" if "distinct (map hd chs)" "distinct (map last chs)"
    using agglomerate_functional[OF assms(1) edges_functional[OF assms(2) that]] .
  from a b c show ?thesis by blast
qed

theorem agglomerate_chains_witness:
  "agglomerate [[1, 2], [0, 1]] = Some (Inr [[0, 1, 2]]) \<and>
   list_all (\<lambda>c. length c = 2) [[1, 2], [0, 1 :: nat]] \<and>
   distinct (map hd [[1, 2], [0, 1 :: nat]]) \<and> distinct (map last [[1, 2], [0, 1 :: nat]]) \<and>
   distinct (concat [[0, 1, 2 :: nat]])"
proof -
  have a: "agglomerate [[1, 2], [0, 1]] = Some (Inr [[0, 1, 2]])"
    by (simp add: agglomerate.simps agg_outer.simps agg_inner.simps compact.simps)
  have b: "\<forall>c\<in>set [[1, 2], [0, 1 :: nat]]. length c = 2" by simp
  from agglomerate_chains[OF a b] a show ?thesis by simp
qed

text \<open>
  For \<^verbatim>\<open>out[x] = in[x] + in[x+1] + in[1+x]\<close> and a prover that knows that addition
  commutes, group 0 is the source of two edges and stays in two chains.
\<close>

theorem shared_group_counterexample:
  "group_loads {} (find_loads_stmt (substitute_in_all_lets_stmt branching)) [] = branching_loads \<and>
   agglomerate (find_chains commuting loop_scope branching_loads) = Some (Inr [[0, 1], [0, 2]]) \<and>
   \<not> distinct (concat [[0, 1], [0, 2 :: nat]])"
  unfolding branching_edges by (simp only: branching_group agglomerate_branching) simp

section \<open>The budget\<close>

lemma size_t_nonneg: "0 \<le> k \<Longrightarrow> k < 2 ^ 31 \<Longrightarrow> size_t k = nat k"
  by (simp add: size_t_def)

lemma trim_chains_budget:
  assumes k: "0 \<le> k" "k < 2 ^ 31"
  shows "sz = sum_list (map length trimmed) \<Longrightarrow> int sz \<le> k \<Longrightarrow>
         \<exists>t. trim_chains k sz trimmed chs = Inr t \<and> int (sum_list (map length t)) \<le> k"
proof (induction chs arbitrary: sz trimmed)
  case Nil
  then show ?case by simp
next
  case (Cons c cs)
  have st: "size_t k = nat k" using k by (rule size_t_nonneg)
  show ?case
  proof (cases "sz + length c > nat k")
    case False
    have "\<exists>t. trim_chains k (sz + length c) (trimmed @ [c]) cs = Inr t \<and>
       int (sum_list (map length t)) \<le> k"
      by (rule Cons.IH) (use Cons.prems False in auto)
    with False st show ?thesis by simp
  next
    case True
    have "0 \<le> k - int sz" "k - int sz \<le> int (length c)" using True Cons.prems by auto
    moreover have "length (take (nat (k - int sz)) c) = nat (k - int sz)" using True by auto
    ultimately show ?thesis using True st Cons.prems by auto
  qed
qed

lemma trim_chains_lengths:
  assumes k: "1 \<le> k" "k < 2 ^ 31"
  shows "\<forall>c\<in>set trimmed \<union> set chs. 2 \<le> length c \<Longrightarrow> trim_chains k sz trimmed chs = Inr t \<Longrightarrow>
         \<forall>c\<in>set t. 2 \<le> length c"
proof (induction chs arbitrary: sz trimmed)
  case Nil
  then show ?case by simp
next
  case (Cons c cs)
  have st: "size_t k = nat k" using k by (simp add: size_t_nonneg)
  have m: "(nat k + 2 ^ 64 - 1) mod 2 ^ 64 = nat k - 1"
  proof -
    have "nat k + 2 ^ 64 - 1 = (nat k - 1) + 1 * 2 ^ 64" using k by simp
    moreover have "nat k - 1 < 2 ^ 64" using k by simp
    ultimately show ?thesis by (metis mod_less mod_mult_self1)
  qed
  show ?case
  proof (cases "sz + length c > nat k")
    case False
    with Cons.prems(2) st have "trim_chains k (sz + length c) (trimmed @ [c]) cs = Inr t" by simp
    then show ?thesis by (rule Cons.IH[rotated]) (use Cons.prems(1) in auto)
  next
    case True
    show ?thesis
    proof (cases "sz < nat k - 1")
      case False
      with True st m Cons.prems show ?thesis by auto
    next
      case lt: True
      then have "2 \<le> nat (k - int sz)" by auto
      moreover have "nat (k - int sz) \<le> length c" using True by auto
      ultimately have "2 \<le> length (take (nat (k - int sz)) c)" by simp
      with True lt st m Cons.prems show ?thesis by (auto split: if_splits)
    qed
  qed
qed

lemma lift_chain_allocs:
  assumes "lift_chain C loads lets c (core, nf, sh, st) = Inr (core', nf', sh', st')"
  shows "\<exists>a. allocs st' = allocs st @ [a] \<and> alloc_name a = unique_name CHR ''c'' (fresh st) \<and>
           alloc_size a = int (length c) * int (lanes (load_type (hd (loads ! hd c))))"
  using assms unfolding lift_chain_def
  by (auto simp: Let_def split: sum.splits prod.splits Expr.splits option.splits list.splits
      if_splits)

lemma lift_chains_allocs:
  "lift_chains C loads lets cs (core, nf, sh, st) = Inr (core', nf', sh', st') \<Longrightarrow>
   map alloc_size (allocs st') =
     map alloc_size (allocs st) @
     map (\<lambda>c. int (length c) * int (lanes (load_type (hd (loads ! hd c))))) cs"
proof (induction cs arbitrary: core nf sh st)
  case Nil
  then show ?case by simp
next
  case (Cons c cs)
  from Cons.prems obtain core1 nf1 sh1 st1 where
    one: "lift_chain C loads lets c (core, nf, sh, st) = Inr (core1, nf1, sh1, st1)" and
    rest: "lift_chains C loads lets cs (core1, nf1, sh1, st1) = Inr (core', nf', sh', st')"
    by (auto split: sum.splits)
  from lift_chain_allocs[OF one] Cons.IH[OF rest] show ?case by auto
qed

text \<open>The chains that are kept hold at most \<open>k\<close> group indices, for every budget \<open>0 \<le> k\<close>,
  also where the synthesis that follows returns no statement.\<close>

lemma select_chains_budget:
  assumes "0 \<le> k" "k < 2 ^ 31" "select_chains k edges = Inr trimmed"
  shows "int (sum_list (map length trimmed)) \<le> k"
proof -
  from assms(3) obtain chs where t: "trim_chains k 0 [] (sort_chains chs) = Inr trimmed"
    by (auto simp: select_chains_def split: option.splits sum.splits)
  from trim_chains_budget[OF assms(1,2), of 0 "[]" "sort_chains chs"] t assms(1)
  show ?thesis by auto
qed

text \<open>
  Claim C3, as amended. The budget counts carried values, not buffer elements, and it is
  applied to each run of stores on its own: for a budget \<open>0 \<le> k\<close> the chains kept for
  one run hold at most \<open>k\<close> group indices in all, and each kept chain of length \<open>n\<close> adds one
  scratch allocation of \<open>n\<close> times the lanes of its loads.
\<close>

theorem carried_values_budget:
  assumes "0 \<le> k" and "k < 2 ^ 31"
    and "lift_carried_values_out_of_stmt C k in_consume linear lets s st = Inr (s', st')"
    and "loads = group_loads in_consume (find_loads_stmt (substitute_in_all_lets_stmt s)) []"
  shows "\<exists>trimmed.
           (if find_chains C linear loads = [] then trimmed = []
            else select_chains k (find_chains C linear loads) = Inr trimmed) \<and>
           int (sum_list (map length trimmed)) \<le> k \<and>
           map alloc_size (allocs st') =
             map alloc_size (allocs st) @
             map (\<lambda>c. int (length c) * int (lanes (load_type (hd (loads ! hd c))))) trimmed"
proof (cases "find_chains C linear loads = []")
  case True
  with assms(3,4) have "st' = st"
    by (simp add: lift_carried_values_out_of_stmt_def Let_def)
  with True assms(1) show ?thesis by simp
next
  case False
  with assms(3,4) obtain trimmed core nf sh where
    sel: "select_chains k (find_chains C linear loads) = Inr trimmed" and
    lc: "lift_chains C loads lets trimmed (substitute_in_all_lets_stmt s, [], [], st) =
           Inr (core, nf, sh, st')"
    by (auto simp: lift_carried_values_out_of_stmt_def Let_def
        split: sum.splits prod.splits option.splits)
  from sel obtain chs where t: "trim_chains k 0 [] (sort_chains chs) = Inr trimmed"
    by (auto simp: select_chains_def split: option.splits sum.splits)
  from trim_chains_budget[OF assms(1,2), of 0 "[]" "sort_chains chs"] t assms(1)
  have "int (sum_list (map length trimmed)) \<le> k" by auto
  with False sel lift_chains_allocs[OF lc] show ?thesis by auto
qed

theorem carried_values_budget_witness:
  "(0 :: int) \<le> 8 \<and> (8 :: int) < 2 ^ 31 \<and>
   lift_carried_values_out_of_stmt plain 8 {} loop_scope [] stencil st0 =
     Inr (stencil_body, stencil_state) \<and>
   (\<exists>trimmed.
      (if find_chains plain loop_scope stencil_loads = [] then trimmed = []
       else select_chains 8 (find_chains plain loop_scope stencil_loads) = Inr trimmed) \<and>
      int (sum_list (map length trimmed)) \<le> 8 \<and>
      map alloc_size (allocs stencil_state) =
        map alloc_size (allocs st0) @
        map (\<lambda>c. int (length c) * int (lanes (load_type (hd (stencil_loads ! hd c))))) trimmed)"
proof -
  have a: "(0 :: int) \<le> 8" and b: "(8 :: int) < 2 ^ 31" by simp_all
  from carried_values_budget[OF a b lift_stencil_eight stencil_group[symmetric]]
    lift_stencil_eight
  show ?thesis by simp
qed

text \<open>
  With a budget of two carried values the two-tap stencil on vectors of four lanes gets
  one scratch buffer of eight elements.
\<close>

theorem scratch_elements_counterexample:
  "(case carry_mutate (lift_carried_values_out_of_stmt plain 2 {}) loop_scope [] vstencil st0 of
      Inl e \<Rightarrow> [] | Inr (s, st) \<Rightarrow> map alloc_size (allocs st)) = [8] \<and>
   \<not> (8 :: int) \<le> 2"
proof -
  have "carry_mutate (lift_carried_values_out_of_stmt plain 2 {}) loop_scope [] vstencil st0 =
      lift_carried_values_out_of_stmt plain 2 {} loop_scope [] vstencil st0"
    by (simp add: vstencil_def)
  then show ?thesis by (simp only: lift_vstencil_sizes) simp
qed

text \<open>
  A loop body with two runs of stores, \<^verbatim>\<open>out[x] = in[x] + in[x+1]\<close> twice with a
  statement that is no store in between. Each run is budgeted on its own: with a budget of
  two carried values each run keeps its chain of two, and the loop gets two scratch
  buffers of two elements.
\<close>

definition two_runs :: Stmt where
  "two_runs = Block two_tap (Block (Evaluate (i32 0)) two_tap)"

lemma select_two_tap_two: "select_chains 2 [[0, 1]] = Inr [[0, 1]]"
  by (simp add: select_chains_def agglomerate_single[simplified] sort_chains_def size_t_def)

lemma lift_two_tap_two:
  "(case lift_carried_values_out_of_stmt plain 2 {} loop_scope [] two_tap st of
      Inl e \<Rightarrow> None
    | Inr (s, st') \<Rightarrow> Some (map alloc_size (allocs st'), fresh st')) =
   Some (map alloc_size (allocs st) @ [2], fresh st + 2)"
  apply (simp only: lift_carried_values_out_of_stmt_def Let_def two_tap_group two_tap_edges
      select_two_tap_two)
  apply (simp add: Let_def lift_chain_def initial_scratch_stores.simps
      substitute_in_all_lets_stmt_def scratch_index_def two_tap_def two_tap_loads_def ir_defs)
  done

lemma two_runs_sizes:
  "(case carry_mutate (lift_carried_values_out_of_stmt plain 2 {}) loop_scope [] two_runs st0 of
      Inl e \<Rightarrow> [] | Inr (s, st) \<Rightarrow> map alloc_size (allocs st)) = [2, 2]"
proof -
  let ?lift = "lift_carried_values_out_of_stmt plain 2 {}"
  obtain r1 st1 where l1: "?lift loop_scope [] two_tap st0 = Inr (r1, st1)"
    and a1: "map alloc_size (allocs st1) = [2]"
    using lift_two_tap_two[of st0] by (auto simp: st0_def split: sum.splits)
  obtain r2 st2 where l2: "?lift loop_scope [] two_tap st1 = Inr (r2, st2)"
    and a2: "map alloc_size (allocs st2) = [2, 2]"
    using lift_two_tap_two[of st1] a1 by (auto split: sum.splits)
  have s: "is_Store two_tap" by (simp add: two_tap_def)
  have b: "block_to_vector two_runs = [two_tap, Evaluate (i32 0), two_tap]"
    by (simp add: two_runs_def two_tap_def)
  have "carry_mutate ?lift loop_scope [] two_runs st0 =
      carry_block ?lift loop_scope [] [two_tap, Evaluate (i32 0), two_tap] [] [] st0"
    using b by (simp add: two_runs_def)
  also have "\<dots> = Inr (Block_make2 r1 (Block_make2 (Evaluate (i32 0)) r2), st2)"
    using s l1 l2 by simp
  finally show ?thesis by (simp add: a2)
qed

lemma select_chains_lengths:
  assumes "1 \<le> k" "k < 2 ^ 31" "\<forall>c\<in>set edges. length c = 2"
    and "select_chains k edges = Inr trimmed"
  shows "\<forall>c\<in>set trimmed. 2 \<le> length c"
proof -
  from assms(4) obtain chs where a: "agglomerate edges = Some (Inr chs)"
    and t: "trim_chains k 0 [] (sort_chains chs) = Inr trimmed"
    by (auto simp: select_chains_def split: option.splits sum.splits)
  from assms(3) have "chain_ok edges" by (simp add: chain_ok_def)
  from agglomerate_chain_ok[OF a this] have "\<forall>c\<in>set [] \<union> set (sort_chains chs). 2 \<le> length c"
    by (simp add: sort_chains_def)
  from trim_chains_lengths[OF assms(1,2) this t] show ?thesis .
qed

text \<open>
  Claim C10 at a budget of zero. The unsigned \<^verbatim>\<open>(size_t)max_carried_values - 1\<close> wraps to
  the largest \<^verbatim>\<open>size_t\<close>, the test \<^verbatim>\<open>sz < ...\<close> holds, and the partial chain
  \<^verbatim>\<open>c.begin(), c.begin() + 0\<close> is kept: an empty chain. The code synthesis then reads
  \<^verbatim>\<open>initial_scratch_values[0]\<close> of an empty vector.
\<close>

theorem zero_budget_empty_chain:
  "select_chains 0 (find_chains plain loop_scope two_tap_loads) = Inr [[]] \<and>
   lift_carried_values_out_of_stmt plain 0 {} loop_scope [] two_tap st0 = Inl OutOfBounds"
  unfolding two_tap_edges by (simp only: select_two_tap lift_two_tap_zero)

section \<open>Linearity is sound\<close>

text \<open>
  The value of a scalar 32-bit integer expression under an assignment of its variables,
  in two's complement arithmetic. Only the nodes \<open>is_linear\<close> accepts have a value here;
  a ramp or broadcast has one lane exactly when its type is scalar, and then its value is
  its base.
\<close>

type_synonym env = "string \<Rightarrow> 32 word"

fun eval :: "env \<Rightarrow> Expr \<Rightarrow> 32 word option" where
  "eval \<rho> (IntImm t v) = Some (word_of_int v)"
| "eval \<rho> (UIntImm t v) = Some (word_of_nat v)"
| "eval \<rho> (Variable t n) = Some (\<rho> n)"
| "eval \<rho> (Add a b) =
     (case (eval \<rho> a, eval \<rho> b) of (Some x, Some y) \<Rightarrow> Some (x + y) | _ \<Rightarrow> None)"
| "eval \<rho> (Sub a b) =
     (case (eval \<rho> a, eval \<rho> b) of (Some x, Some y) \<Rightarrow> Some (x - y) | _ \<Rightarrow> None)"
| "eval \<rho> (Mul a b) =
     (case (eval \<rho> a, eval \<rho> b) of (Some x, Some y) \<Rightarrow> Some (x * y) | _ \<Rightarrow> None)"
| "eval \<rho> (Ramp base stride n) = (if n = 1 then eval \<rho> base else None)"
| "eval \<rho> (Broadcast v n) = (if n = 1 then eval \<rho> v else None)"
| "eval \<rho> e = None"

text \<open>
  One loop iteration later: a variable outside the scope keeps its value, a variable the
  scope tracks with a step has moved by the value of its step, and nothing is known of a
  variable the scope marks as not linear.
\<close>

definition advanced :: "scope \<Rightarrow> env \<Rightarrow> env \<Rightarrow> bool" where
  "advanced linear \<rho> \<rho>' \<longleftrightarrow>
     (\<forall>x. (linear x = None \<longrightarrow> \<rho>' x = \<rho> x) \<and>
          (\<forall>step. linear x = Some (Some step) \<longrightarrow>
             (\<exists>d. eval \<rho> step = Some d \<and> \<rho>' x = \<rho> x + d)))"

text \<open>The reading of the step with every tracked variable moved by one instead.\<close>

definition plus_one :: "scope \<Rightarrow> env \<Rightarrow> env" where
  "plus_one linear \<rho> = (\<lambda>x. if linear x = None then \<rho> x else \<rho> x + 1)"

lemma is_const_zero_eval: "is_const_zero x \<Longrightarrow> eval \<rho> x = Some d \<Longrightarrow> d = 0"
  by (induction x rule: is_const_zero.induct) (auto split: if_splits)

lemma is_zero_eval: "is_zero l \<Longrightarrow> l = Some x \<Longrightarrow> eval \<rho> x = Some d \<Longrightarrow> d = 0"
  by (auto simp: is_zero_def dest: is_const_zero_eval)

lemma is_zero_Some: "is_zero l \<Longrightarrow> \<exists>x. l = Some x"
  by (cases l) (auto simp: is_zero_def)

lemma make_zero_eval: "eval \<rho> (make_zero (Int_t 32)) = Some 0"
  by (simp add: make_zero_def make_const_def Int_t_def element_of_def with_lanes_def)

definition steps :: "env \<Rightarrow> env \<Rightarrow> Expr \<Rightarrow> Expr option \<Rightarrow> bool" where
  "steps \<rho> \<rho>' e l \<longleftrightarrow>
     (\<forall>s. l = Some s \<longrightarrow>
        (\<exists>v d. eval \<rho> e = Some v \<and> eval \<rho> s = Some d \<and> eval \<rho>' e = Some (v + d)))"

lemma is_linear_steps:
  assumes adv: "advanced linear \<rho> \<rho>'"
  shows "steps \<rho> \<rho>' e (is_linear e linear)"
proof (induction e)
  case (IntImm t v)
  then show ?case
    by (auto simp: steps_def is_linear.simps make_zero_eval split: if_splits)
next
  case (Variable t n)
  show ?case
  proof (cases "linear n")
    case None
    with adv have "\<rho>' n = \<rho> n" by (simp add: advanced_def)
    with None show ?thesis
      by (auto simp: steps_def is_linear.simps make_zero_eval split: if_splits)
  next
    case (Some st)
    with adv have "\<forall>step. st = Some step \<longrightarrow> (\<exists>d. eval \<rho> step = Some d \<and> \<rho>' n = \<rho> n + d)"
      by (simp add: advanced_def)
    with Some show ?thesis
      by (auto simp: steps_def is_linear.simps split: if_splits)
  qed
next
  case (Add a b)
  let ?la = "is_linear a linear" and ?lb = "is_linear b linear"
  show ?case unfolding steps_def
  proof (intro allI impI)
    fix s assume s: "is_linear (Add a b) linear = Some s"
    then have ty: "type_of (Add a b) = Int_t 32"
      by (subst (asm) is_linear.simps) (simp split: if_splits)
    from s ty have r: "(if is_zero ?lb then ?la else if is_zero ?la then ?lb
        else (case (?la, ?lb) of (Some x, Some y) \<Rightarrow> Some (Add x y) | _ \<Rightarrow> None)) = Some s"
      by (subst (asm) is_linear.simps) (simp add: Let_def)
    then obtain x y where xy: "?la = Some x" "?lb = Some y"
      by (cases ?la; cases ?lb) (auto dest: is_zero_Some split: if_splits)
    from Add.IH(1) xy obtain va da where a: "eval \<rho> a = Some va" "eval \<rho> x = Some da"
      "eval \<rho>' a = Some (va + da)" by (auto simp: steps_def)
    from Add.IH(2) xy obtain vb db where b: "eval \<rho> b = Some vb" "eval \<rho> y = Some db"
      "eval \<rho>' b = Some (vb + db)" by (auto simp: steps_def)
    show "\<exists>v d. eval \<rho> (Add a b) = Some v \<and> eval \<rho> s = Some d \<and> eval \<rho>' (Add a b) = Some (v + d)"
    proof (cases "is_zero ?lb")
      case True
      with xy b have "db = 0" by (auto dest: is_zero_eval)
      with True r xy a b show ?thesis by simp
    next
      case nb: False
      show ?thesis
      proof (cases "is_zero ?la")
        case True
        with xy a have "da = 0" by (auto dest: is_zero_eval)
        with True nb r xy a b show ?thesis by simp
      next
        case False
        with nb r xy a b show ?thesis by auto
      qed
    qed
  qed
next
  case (Sub a b)
  let ?la = "is_linear a linear" and ?lb = "is_linear b linear"
  show ?case unfolding steps_def
  proof (intro allI impI)
    fix s assume s: "is_linear (Sub a b) linear = Some s"
    then have ty: "type_of (Sub a b) = Int_t 32"
      by (subst (asm) is_linear.simps) (simp split: if_splits)
    from s ty have r: "(if is_zero ?lb then ?la
        else (case (?la, ?lb) of (Some x, Some y) \<Rightarrow> Some (Sub x y) | _ \<Rightarrow> None)) = Some s"
      by (subst (asm) is_linear.simps) (simp add: Let_def)
    then obtain x y where xy: "?la = Some x" "?lb = Some y"
      by (cases ?la; cases ?lb) (auto dest: is_zero_Some split: if_splits)
    from Sub.IH(1) xy obtain va da where a: "eval \<rho> a = Some va" "eval \<rho> x = Some da"
      "eval \<rho>' a = Some (va + da)" by (auto simp: steps_def)
    from Sub.IH(2) xy obtain vb db where b: "eval \<rho> b = Some vb" "eval \<rho> y = Some db"
      "eval \<rho>' b = Some (vb + db)" by (auto simp: steps_def)
    show "\<exists>v d. eval \<rho> (Sub a b) = Some v \<and> eval \<rho> s = Some d \<and> eval \<rho>' (Sub a b) = Some (v + d)"
    proof (cases "is_zero ?lb")
      case True
      with xy b have "db = 0" by (auto dest: is_zero_eval)
      with True r xy a b show ?thesis by simp
    next
      case False
      with r xy a b show ?thesis by auto
    qed
  qed
next
  case (Mul a b)
  let ?la = "is_linear a linear" and ?lb = "is_linear b linear"
  show ?case unfolding steps_def
  proof (intro allI impI)
    fix s assume s: "is_linear (Mul a b) linear = Some s"
    then have ty: "type_of (Mul a b) = Int_t 32"
      by (subst (asm) is_linear.simps) (simp split: if_splits)
    from s ty have r: "(if is_zero ?la \<and> is_zero ?lb then ?la
         else if is_zero ?la \<and> ?lb \<noteq> None then map_option (Mul a) ?lb
         else if ?la \<noteq> None \<and> is_zero ?lb then map_option (\<lambda>x. Mul x b) ?la
         else None) = Some s"
      by (subst (asm) is_linear.simps) (simp add: Let_def)
    then obtain x y where xy: "?la = Some x" "?lb = Some y"
      by (cases ?la; cases ?lb) (auto dest: is_zero_Some split: if_splits)
    from Mul.IH(1) xy obtain va da where a: "eval \<rho> a = Some va" "eval \<rho> x = Some da"
      "eval \<rho>' a = Some (va + da)" by (auto simp: steps_def)
    from Mul.IH(2) xy obtain vb db where b: "eval \<rho> b = Some vb" "eval \<rho> y = Some db"
      "eval \<rho>' b = Some (vb + db)" by (auto simp: steps_def)
    have za: "is_zero ?la \<Longrightarrow> da = 0" using xy a by (auto dest: is_zero_eval)
    have zb: "is_zero ?lb \<Longrightarrow> db = 0" using xy b by (auto dest: is_zero_eval)
    show "\<exists>v d. eval \<rho> (Mul a b) = Some v \<and> eval \<rho> s = Some d \<and> eval \<rho>' (Mul a b) = Some (v + d)"
      using r xy a b za zb by (auto split: if_splits simp: algebra_simps)
  qed
next
  case (Ramp base stride n)
  let ?la = "is_linear base linear" and ?lb = "is_linear stride linear"
  show ?case unfolding steps_def
  proof (intro allI impI)
    fix s assume s: "is_linear (Ramp base stride n) linear = Some s"
    then have ty: "type_of (Ramp base stride n) = Int_t 32"
      by (subst (asm) is_linear.simps) (simp split: if_splits)
    then have n: "n = 1" by (simp add: Int_t_def with_lanes_def)
    from s ty have r: "(if is_zero ?lb then ?la else None) = Some s"
      by (subst (asm) is_linear.simps) (simp add: Let_def)
    then have "?la = Some s" by (simp split: if_splits)
    with Ramp.IH(1) n show "\<exists>v d. eval \<rho> (Ramp base stride n) = Some v \<and> eval \<rho> s = Some d \<and>
        eval \<rho>' (Ramp base stride n) = Some (v + d)"
      by (auto simp: steps_def)
  qed
next
  case (Broadcast v n)
  show ?case unfolding steps_def
  proof (intro allI impI)
    fix s assume s: "is_linear (Broadcast v n) linear = Some s"
    then have ty: "type_of (Broadcast v n) = Int_t 32"
      by (subst (asm) is_linear.simps) (simp split: if_splits)
    then have n: "n = 1" by (simp add: Int_t_def with_lanes_def)
    from s ty have "is_linear v linear = Some s"
      by (subst (asm) is_linear.simps) simp
    with Broadcast.IH n show "\<exists>w d. eval \<rho> (Broadcast v n) = Some w \<and> eval \<rho> s = Some d \<and>
        eval \<rho>' (Broadcast v n) = Some (w + d)"
      by (auto simp: steps_def)
  qed
qed (simp_all add: steps_def is_linear.simps)

text \<open>
  Claim C7, as amended. When \<open>is_linear\<close> returns a step \<open>s\<close> for \<open>e\<close>, then \<open>e\<close> has a
  value, and one iteration later (every variable the scope tracks moved by the value of
  its own step) the value of \<open>e\<close> has moved by the value of \<open>s\<close>, in 32-bit arithmetic.
\<close>

theorem is_linear_sound:
  assumes "is_linear e linear = Some s" and "advanced linear \<rho> \<rho>'"
  shows "\<exists>v d. eval \<rho> e = Some v \<and> eval \<rho> s = Some d \<and> eval \<rho>' e = Some (v + d)"
  using is_linear_steps[OF assms(2), of e] assms(1) by (simp add: steps_def)

theorem is_linear_sound_witness:
  "is_linear (Add (Mul (IntImm (Int_t 32) 2) (Variable (Int_t 32) ''x'')) (IntImm (Int_t 32) 3))
      [''x'' \<mapsto> Some (IntImm (Int_t 32) 1)]
     = Some (Mul (IntImm (Int_t 32) 2) (IntImm (Int_t 32) 1)) \<and>
   advanced [''x'' \<mapsto> Some (IntImm (Int_t 32) 1)] (\<lambda>n. 5) ((\<lambda>n. 5)(''x'' := 6)) \<and>
   eval ((\<lambda>n. 5)(''x'' := 6))
      (Add (Mul (IntImm (Int_t 32) 2) (Variable (Int_t 32) ''x'')) (IntImm (Int_t 32) 3))
     = Some (13 + 2)"
proof -
  let ?e = "Add (Mul (IntImm (Int_t 32) 2) (Variable (Int_t 32) ''x'')) (IntImm (Int_t 32) 3)"
  let ?l = "[''x'' \<mapsto> Some (IntImm (Int_t 32) 1)]"
  have a: "is_linear ?e ?l = Some (Mul (IntImm (Int_t 32) 2) (IntImm (Int_t 32) 1))"
    by (simp add: is_linear.simps is_zero_def make_zero_def make_const_def Int_t_def
        element_of_def with_lanes_def)
  have b: "advanced ?l (\<lambda>n. 5) ((\<lambda>n. 5)(''x'' := 6))"
    by (simp add: advanced_def)
  from is_linear_sound[OF a b] a b show ?thesis by simp
qed

text \<open>
  The claim as the specification words it moves every tracked variable by one. Inside
  \<^verbatim>\<open>let y = 2 * x\<close> the scope tracks \<open>y\<close> with the step \<open>2 * 1\<close>, which is what \<open>is_linear\<close>
  returns for \<open>y\<close>; moving \<open>y\<close> by one changes it by 1, not by 2.
\<close>

theorem is_linear_plus_one_counterexample:
  "is_linear (Mul (IntImm (Int_t 32) 2) (Variable (Int_t 32) ''x''))
      [''x'' \<mapsto> Some (IntImm (Int_t 32) 1)]
     = Some (Mul (IntImm (Int_t 32) 2) (IntImm (Int_t 32) 1)) \<and>
   is_linear (Variable (Int_t 32) ''y'')
      [''x'' \<mapsto> Some (IntImm (Int_t 32) 1),
       ''y'' \<mapsto> Some (Mul (IntImm (Int_t 32) 2) (IntImm (Int_t 32) 1))]
     = Some (Mul (IntImm (Int_t 32) 2) (IntImm (Int_t 32) 1)) \<and>
   eval (\<lambda>n. 0) (Variable (Int_t 32) ''y'') = Some 0 \<and>
   eval (plus_one [''x'' \<mapsto> Some (IntImm (Int_t 32) 1),
                   ''y'' \<mapsto> Some (Mul (IntImm (Int_t 32) 2) (IntImm (Int_t 32) 1))] (\<lambda>n. 0))
      (Variable (Int_t 32) ''y'') = Some 1 \<and>
   eval (\<lambda>n. 0) (Mul (IntImm (Int_t 32) 2) (IntImm (Int_t 32) 1)) = Some 2 \<and>
   (1 :: 32 word) - 0 \<noteq> 2"
  by (simp add: is_linear.simps is_zero_def make_zero_def make_const_def Int_t_def
      element_of_def with_lanes_def plus_one_def)

section \<open>The edges and the loads they carry\<close>

lemma find_chains_iff:
  "c \<in> set (find_chains C linear loads) \<longleftrightarrow>
     (\<exists>i j. c = [j, i] \<and> i < length loads \<and> j < length loads \<and> carries C linear loads i j)"
  unfolding find_chains_def by auto

text \<open>
  Claim C6. An edge \<open>[j, i]\<close> is recorded exactly when \<open>i\<close> and \<open>j\<close> are two different
  groups whose first loads have the same buffer name, the index of \<open>j\<close> stepped forwards is
  defined and equals the index of \<open>i\<close> structurally or, the types agreeing, by \<open>can_prove\<close>
  on the CSE'd forms, and the same holds of the predicates.
\<close>

theorem find_chains_edge:
  "[j, i] \<in> set (find_chains C linear loads) \<longleftrightarrow>
    (i < length loads \<and> j < length loads \<and> i \<noteq> j \<and>
     load_name (hd (loads ! i)) = load_name (hd (loads ! j)) \<and>
     (\<exists>nj. step_forwards C (load_index (hd (loads ! j))) linear = Some nj \<and>
        (load_index (hd (loads ! i)) = nj \<or>
         type_of (load_index (hd (loads ! i))) = type_of nj \<and>
         can_prove C (EQ (common_subexpression_elimination C (load_index (hd (loads ! i))))
                         (common_subexpression_elimination C nj)))) \<and>
     (\<exists>np. step_forwards C (load_predicate (hd (loads ! j))) linear = Some np \<and>
        (load_predicate (hd (loads ! i)) = np \<or>
         type_of (load_predicate (hd (loads ! i))) = type_of np \<and>
         can_prove C (EQ (common_subexpression_elimination C (load_predicate (hd (loads ! i))))
                         (common_subexpression_elimination C np)))))"
  (is "?L \<longleftrightarrow> ?R")
proof -
  have "?L \<longleftrightarrow> i < length loads \<and> j < length loads \<and> carries C linear loads i j"
    by (auto simp: find_chains_iff)
  also have "\<dots> \<longleftrightarrow> ?R"
    unfolding carries_def same_next_def indices_def next_indices_def predicates_def
      next_predicates_def
    by (cases "i < length loads"; cases "j < length loads")
       (auto split: option.splits)
  finally show ?thesis .
qed

theorem find_chains_edge_witness:
  "[0, 1] \<in> set (find_chains plain loop_scope stencil_loads) \<and>
   [1, 0] \<notin> set (find_chains plain loop_scope stencil_loads)"
  unfolding find_chains_edge
  by (simp add: step_forwards_def substitute_in_all_lets_def ir_defs)

lemma find_chains_shape:
  assumes "c \<in> set (find_chains C linear loads)"
  shows "length c = 2 \<and> (\<forall>g\<in>set c. g < length loads)"
  using assms by (auto simp: find_chains_iff)

lemma represent_groups:
  assumes "represent load loads = (loads', r)"
    and "\<forall>v\<in>set loads. v \<noteq> [] \<and> (\<forall>l\<in>set v. P l)" and "P load"
  shows "\<forall>v\<in>set loads'. v \<noteq> [] \<and> (\<forall>l\<in>set v. P l)"
  using assms
proof (induction loads arbitrary: loads' r)
  case Nil
  then show ?case by simp
next
  case (Cons v vs)
  obtain vs' r' where rec: "represent load vs = (vs', r')" by (cases "represent load vs")
  from Cons.IH[OF rec] Cons.prems have ih: "\<forall>v\<in>set vs'. v \<noteq> [] \<and> (\<forall>l\<in>set v. P l)" by simp
  from Cons.prems(2) have v: "v \<noteq> []" "\<forall>l\<in>set v. P l" by simp_all
  from Cons.prems(1) rec have "loads' = v # vs' \<or> loads' = (v @ [load]) # vs'"
    by (auto split: list.splits if_splits)
  with ih v Cons.prems(3) show ?case by auto
qed

lemma group_loads_groups:
  assumes "\<forall>v\<in>set loads. v \<noteq> [] \<and> (\<forall>l\<in>set v. safe in_consume l)"
  shows "\<forall>v\<in>set (group_loads in_consume found loads). v \<noteq> [] \<and> (\<forall>l\<in>set v. safe in_consume l)"
  using assms
proof (induction found arbitrary: loads)
  case Nil
  then show ?case by simp
next
  case (Cons load found)
  show ?case
  proof (cases "safe in_consume load")
    case False
    with Cons show ?thesis by simp
  next
    case True
    obtain loads' r where rep: "represent load loads = (loads', r)"
      by (cases "represent load loads")
    from represent_groups[OF rep, of "safe in_consume"] Cons.prems True
    have g: "\<forall>v\<in>set loads'. v \<noteq> [] \<and> (\<forall>l\<in>set v. safe in_consume l)" by simp
    then have "\<forall>v\<in>set (if r then loads' else loads' @ [[load]]).
        v \<noteq> [] \<and> (\<forall>l\<in>set v. safe in_consume l)"
      using True by auto
    from Cons.IH[OF this] True rep show ?thesis by simp
  qed
qed

lemma trim_chains_elems:
  "trim_chains k sz trimmed chs = Inr t \<Longrightarrow>
   set (concat t) \<subseteq> set (concat trimmed) \<union> set (concat chs)"
proof (induction chs arbitrary: sz trimmed)
  case Nil
  then show ?case by simp
next
  case (Cons c cs)
  show ?case
  proof (cases "sz + length c > size_t k")
    case False
    with Cons.prems have "trim_chains k (sz + length c) (trimmed @ [c]) cs = Inr t" by simp
    from Cons.IH[OF this] show ?thesis by auto
  next
    case True
    with Cons.prems have "t = trimmed \<or> t = trimmed @ [take (nat (k - int sz)) c]"
      by (auto split: if_splits)
    then show ?thesis using set_take_subset[of "nat (k - int sz)" c] by auto
  qed
qed

lemma select_chains_elems:
  assumes "select_chains k edges = Inr trimmed"
  shows "set (concat trimmed) \<subseteq> set (concat edges)"
proof -
  from assms obtain chs where a: "agglomerate edges = Some (Inr chs)"
    and t: "trim_chains k 0 [] (sort_chains chs) = Inr trimmed"
    by (auto simp: select_chains_def split: option.splits sum.splits)
  from trim_chains_elems[OF t] have "set (concat trimmed) \<subseteq> set (concat chs)"
    by (simp add: sort_chains_def)
  with agglomerate_elems[OF a] show ?thesis by blast
qed

text \<open>
  Claim C9. Every load of a group that a kept chain names is a load from a bound image,
  from a parameter, or from a buffer in the in-consume set: the groups hold safe loads
  only, and a chain holds indices of groups only.
\<close>

theorem carried_loads_safe:
  assumes "loads = group_loads in_consume (find_loads_stmt (substitute_in_all_lets_stmt s)) []"
    and "select_chains k (find_chains C linear loads) = Inr trimmed"
    and "c \<in> set trimmed" and "g \<in> set c"
  shows "g < length loads \<and> loads ! g \<noteq> [] \<and>
         (\<forall>l\<in>set (loads ! g).
            load_image l \<noteq> None \<or> load_param l \<noteq> None \<or> load_name l \<in> in_consume)"
proof -
  from assms(3,4) have "g \<in> set (concat trimmed)" by auto
  with select_chains_elems[OF assms(2)] obtain e where
    "e \<in> set (find_chains C linear loads)" "g \<in> set e" by auto
  with find_chains_shape have gl: "g < length loads" by blast
  have "\<forall>v\<in>set loads. v \<noteq> [] \<and> (\<forall>l\<in>set v. safe in_consume l)"
    unfolding assms(1) by (rule group_loads_groups) simp
  with gl have "loads ! g \<noteq> [] \<and> (\<forall>l\<in>set (loads ! g). safe in_consume l)"
    using nth_mem by blast
  with gl show ?thesis by (simp add: safe_def)
qed

theorem carried_loads_safe_witness:
  "select_chains 8 (find_chains plain loop_scope stencil_loads) = Inr [[0, 1, 2]] \<and>
   (1 :: nat) < length stencil_loads \<and> stencil_loads ! 1 \<noteq> [] \<and>
   safe {} (hd (stencil_loads ! 1))"
proof -
  have a: "stencil_loads = group_loads {} (find_loads_stmt (substitute_in_all_lets_stmt stencil)) []"
    by (simp add: stencil_group)
  have b: "select_chains 8 (find_chains plain loop_scope stencil_loads) = Inr [[0, 1, 2]]"
    unfolding stencil_edges by (rule select_stencil(1))
  have "(1 :: nat) < length stencil_loads \<and> stencil_loads ! 1 \<noteq> [] \<and>
      (\<forall>l\<in>set (stencil_loads ! 1).
         load_image l \<noteq> None \<or> load_param l \<noteq> None \<or> load_name l \<in> {})"
    by (rule carried_loads_safe[OF a b, of "[0, 1, 2]" 1]) simp_all
  then have "(1 :: nat) < length stencil_loads \<and> stencil_loads ! 1 \<noteq> [] \<and>
      safe {} (hd (stencil_loads ! 1))"
    by (auto simp: safe_def)
  with b show ?thesis by simp
qed

section \<open>The stores of a rewritten run\<close>

text \<open>
  The layout of a rewritten run as the spec describes it, to be compared with what the
  loops of \<^verbatim>\<open>lift_carried_values_out_of_stmt\<close> build. First the core: one pass over a
  statement that replaces every load the table \<open>\<sigma>\<close> names by its entry, and nothing else.
  Like \<^verbatim>\<open>FindLoads\<close> it does not look inside a load.
\<close>

fun redirect :: "(Expr \<rightharpoonup> Expr) \<Rightarrow> Expr \<Rightarrow> Expr" where
  "redirect \<sigma> (Load t n i im pa p) =
     (case \<sigma> (Load t n i im pa p) of None \<Rightarrow> Load t n i im pa p | Some r \<Rightarrow> r)"
| "redirect \<sigma> (IntImm t v) = IntImm t v"
| "redirect \<sigma> (UIntImm t v) = UIntImm t v"
| "redirect \<sigma> (Variable t n) = Variable t n"
| "redirect \<sigma> (Add a b) = Add (redirect \<sigma> a) (redirect \<sigma> b)"
| "redirect \<sigma> (Sub a b) = Sub (redirect \<sigma> a) (redirect \<sigma> b)"
| "redirect \<sigma> (Mul a b) = Mul (redirect \<sigma> a) (redirect \<sigma> b)"
| "redirect \<sigma> (EQ a b) = EQ (redirect \<sigma> a) (redirect \<sigma> b)"
| "redirect \<sigma> (GT a b) = GT (redirect \<sigma> a) (redirect \<sigma> b)"
| "redirect \<sigma> (Ramp base stride n) = Ramp (redirect \<sigma> base) (redirect \<sigma> stride) n"
| "redirect \<sigma> (Broadcast v n) = Broadcast (redirect \<sigma> v) n"
| "redirect \<sigma> (Let_e n v b) = Let_e n (redirect \<sigma> v) (redirect \<sigma> b)"
| "redirect \<sigma> (Call t n args ct) = Call t n (map (redirect \<sigma>) args) ct"

fun redirect_stmt :: "(Expr \<rightharpoonup> Expr) \<Rightarrow> Stmt \<Rightarrow> Stmt" where
  "redirect_stmt \<sigma> (Store n v i pa p) =
     Store n (redirect \<sigma> v) (redirect \<sigma> i) pa (redirect \<sigma> p)"
| "redirect_stmt \<sigma> (Block a b) = Block (redirect_stmt \<sigma> a) (redirect_stmt \<sigma> b)"
| "redirect_stmt \<sigma> (LetStmt n v b) = LetStmt n (redirect \<sigma> v) (redirect_stmt \<sigma> b)"
| "redirect_stmt \<sigma> (For n mn ext ft pp da b) =
     For n (redirect \<sigma> mn) (redirect \<sigma> ext) ft pp da (redirect_stmt \<sigma> b)"
| "redirect_stmt \<sigma> (IfThenElse c t e) =
     IfThenElse (redirect \<sigma> c) (redirect_stmt \<sigma> t) (map_option (redirect_stmt \<sigma>) e)"
| "redirect_stmt \<sigma> (ProducerConsumer n p b) = ProducerConsumer n p (redirect_stmt \<sigma> b)"
| "redirect_stmt \<sigma> (Allocate n t m exts c b) =
     Allocate n t m (map (redirect \<sigma>) exts) (redirect \<sigma> c) (redirect_stmt \<sigma> b)"
| "redirect_stmt \<sigma> (Evaluate e) = Evaluate (redirect \<sigma> e)"

text \<open>
  What the synthesis makes of the chain \<open>c\<close> with the scratch buffer \<open>scratch\<close>. At
  position \<open>i\<close>, for the group \<open>g = c ! i\<close> with its first load \<open>l\<close>: the loads of the group
  are replaced by the load from slot \<open>i\<close>; the last position stores \<open>l\<close> itself into its
  slot, the leading-edge store; every position but the first moves its slot down by one,
  the shuffle. \<open>slot_store\<close> is the \<^verbatim>\<open>Store::make\<close> that the stores to a scratch buffer
  share.
\<close>

definition load_from_scratch :: "string \<Rightarrow> nat \<Rightarrow> Expr \<Rightarrow> Expr" where
  "load_from_scratch scratch i l =
     Load (load_type l) scratch (scratch_index i (load_type l)) None None
       (const_true (lanes (load_type l)))"

definition slot_store :: "string \<Rightarrow> Expr \<Rightarrow> nat \<Rightarrow> Type \<Rightarrow> Stmt" where
  "slot_store scratch v i t = Store scratch v (scratch_index i t) None (const_true (lanes t))"

definition redirection :: "Expr list list \<Rightarrow> string \<Rightarrow> nat \<times> nat \<Rightarrow> Expr \<times> Expr" where
  "redirection loads scratch = (\<lambda>(i, g). (hd (loads ! g), load_from_scratch scratch i (hd (loads ! g))))"

definition redirections :: "Expr list list \<Rightarrow> string \<Rightarrow> nat list \<Rightarrow> (Expr \<times> Expr) list" where
  "redirections loads scratch c = map (redirection loads scratch) (enumerate 0 c)"

definition leading_edge_store :: "Expr list list \<Rightarrow> string \<Rightarrow> nat list \<Rightarrow> Stmt" where
  "leading_edge_store loads scratch c =
     (let l = hd (loads ! last c) in slot_store scratch l (length c - 1) (load_type l))"

definition shuffle :: "Expr list list \<Rightarrow> string \<Rightarrow> nat \<times> nat \<Rightarrow> Stmt" where
  "shuffle loads scratch = (\<lambda>(i, g).
     let l = hd (loads ! g)
     in slot_store scratch (load_from_scratch scratch i l) (i - 1) (load_type l))"

definition shuffle_stores :: "Expr list list \<Rightarrow> string \<Rightarrow> nat list \<Rightarrow> Stmt list" where
  "shuffle_stores loads scratch c = map (shuffle loads scratch) (tl (enumerate 0 c))"

text \<open>The names of the scratch buffers of \<open>n\<close> chains: every chain takes two fresh names,
  one for its buffer and one for the call that bundles its initial values.\<close>

definition scratch_names :: "nat \<Rightarrow> nat \<Rightarrow> string list" where
  "scratch_names counter n = map (\<lambda>m. unique_name CHR ''c'' (counter + 2 * m)) [0..<n]"

fun is_Load :: "Expr \<Rightarrow> bool" where
  "is_Load (Load t n i im pa p) = True"
| "is_Load e = False"

subsection \<open>One substitution after the other is one pass\<close>

lemma redirect_Load_id: "is_Load r \<Longrightarrow> \<sigma> r = None \<Longrightarrow> redirect \<sigma> r = r"
  by (cases r) simp_all

lemma redirect_step:
  assumes "is_Load r" "\<sigma> r = None" "\<sigma>' = \<sigma>(n \<mapsto> r)"
  shows "redirect \<sigma> (graph_substitute n r e) = redirect \<sigma>' e"
proof (induction e)
  case (Load t nm i im pa p)
  then show ?case using assms by (simp add: redirect_Load_id)
qed (simp_all cong: map_cong)

lemma redirect_stmt_step:
  assumes "is_Load r" "\<sigma> r = None" "\<sigma>' = \<sigma>(n \<mapsto> r)"
  shows "redirect_stmt \<sigma> (graph_substitute_stmt n r s) = redirect_stmt \<sigma>' s"
proof (induction s)
  case (IfThenElse c t e)
  then show ?case by (cases e) (simp_all add: redirect_step[OF assms])
qed (simp_all add: redirect_step[OF assms] cong: map_cong)

lemma redirect_empty: "redirect Map.empty e = e"
  by (induction e) (simp_all cong: map_cong add: map_idI)

lemma redirect_stmt_empty: "redirect_stmt Map.empty s = s"
proof (induction s)
  case (IfThenElse c t e)
  then show ?case by (cases e) (simp_all add: redirect_empty)
qed (simp_all add: redirect_empty map_idI)

lemma fold_substitute_redirect:
  assumes "\<forall>(n, r)\<in>set ps. is_Load r \<and> r \<notin> fst ` set ps"
  shows "fold (\<lambda>(n, r). graph_substitute_stmt n r) ps s = redirect_stmt (map_of ps) s"
  using assms
proof (induction ps arbitrary: s)
  case Nil
  then show ?case by (simp add: redirect_stmt_empty)
next
  case (Cons a ps)
  obtain n r where a: "a = (n, r)" by (cases a)
  from Cons.prems a have r: "is_Load r" "r \<notin> fst ` set ps" by auto
  from Cons.prems have "\<forall>(n, r)\<in>set ps. is_Load r \<and> r \<notin> fst ` set ps" by auto
  from Cons.IH[OF this]
  have "fold (\<lambda>(n, r). graph_substitute_stmt n r) ps (graph_substitute_stmt n r s) =
      redirect_stmt (map_of ps) (graph_substitute_stmt n r s)" .
  also from r(2) have "map_of ps r = None" by (simp add: map_of_eq_None_iff)
  then have "redirect_stmt (map_of ps) (graph_substitute_stmt n r s) =
      redirect_stmt (map_of ((n, r) # ps)) s"
    using r(1) by (intro redirect_stmt_step) simp_all
  finally show ?case unfolding a by (simp add: fun_upd_def)
qed

subsection \<open>The groups of loads\<close>

text \<open>A group is not empty, and its loads all equal its first load.\<close>

definition uniform :: "Expr list \<Rightarrow> bool" where
  "uniform v \<longleftrightarrow> v \<noteq> [] \<and> (\<forall>l\<in>set v. l = hd v)"

lemma uniform_single: "uniform [l]"
  by (simp add: uniform_def)

lemma uniform_snoc: "uniform (v0 # w) \<Longrightarrow> uniform ((v0 # w) @ [v0])"
  by (simp add: uniform_def)

lemma represent_uniform:
  assumes "represent load loads = (loads', r)" and "\<forall>v\<in>set loads. uniform v"
  shows "\<forall>v\<in>set loads'. uniform v"
  using assms
proof (induction loads arbitrary: loads' r)
  case Nil
  then show ?case by simp
next
  case (Cons v vs)
  obtain vs' r' where rec: "represent load vs = (vs', r')" by (cases "represent load vs")
  from Cons.IH[OF rec] Cons.prems have ih: "\<forall>v\<in>set vs'. uniform v" by simp
  from Cons.prems(2) have v: "uniform v" by simp
  then obtain v0 w where vw: "v = v0 # w" by (cases v) (auto simp: uniform_def)
  show ?case
  proof (cases "load = v0")
    case True
    with Cons.prems(1) rec vw have "loads' = ((v0 # w) @ [v0]) # vs'" by simp
    with ih uniform_snoc v vw show ?thesis by simp
  next
    case False
    with Cons.prems(1) rec vw have "loads' = v # vs'" by simp
    with ih v show ?thesis by simp
  qed
qed

lemma group_loads_uniform:
  assumes "\<forall>v\<in>set loads. uniform v"
  shows "\<forall>v\<in>set (group_loads in_consume found loads). uniform v"
  using assms
proof (induction found arbitrary: loads)
  case Nil
  then show ?case by simp
next
  case (Cons load found)
  show ?case
  proof (cases "safe in_consume load")
    case False
    with Cons show ?thesis by simp
  next
    case True
    obtain loads' r where rep: "represent load loads = (loads', r)"
      by (cases "represent load loads")
    from represent_uniform[OF rep Cons.prems]
    have "\<forall>v\<in>set (if r then loads' else loads' @ [[load]]). uniform v"
      by (simp add: uniform_single)
    from Cons.IH[OF this] True rep show ?thesis by simp
  qed
qed

text \<open>Every load of a group is one of the loads that were found.\<close>

lemma group_loads_all:
  assumes "\<forall>v\<in>set loads. v \<noteq> [] \<and> (\<forall>l\<in>set v. P l)" and "\<forall>l\<in>set found. P l"
  shows "\<forall>v\<in>set (group_loads in_consume found loads). v \<noteq> [] \<and> (\<forall>l\<in>set v. P l)"
  using assms
proof (induction found arbitrary: loads)
  case Nil
  then show ?case by simp
next
  case (Cons load found)
  from Cons.prems(2) have m: "P load" and f: "\<forall>l\<in>set found. P l" by simp_all
  show ?case
  proof (cases "safe in_consume load")
    case False
    with Cons.IH[OF Cons.prems(1) f] show ?thesis by simp
  next
    case True
    obtain loads' r where rep: "represent load loads = (loads', r)"
      by (cases "represent load loads")
    from represent_groups[OF rep Cons.prems(1) m] m
    have "\<forall>v\<in>set (if r then loads' else loads' @ [[load]]).
        v \<noteq> [] \<and> (\<forall>l\<in>set v. P l)" by simp
    from Cons.IH[OF this f] True rep show ?thesis by simp
  qed
qed

lemma group_loads_found:
  assumes "v \<in> set (group_loads in_consume found [])"
  shows "hd v \<in> set found"
proof -
  have "\<forall>v\<in>set (group_loads in_consume found []). v \<noteq> [] \<and> (\<forall>l\<in>set v. l \<in> set found)"
    by (rule group_loads_all) simp_all
  with assms show ?thesis by simp
qed

subsection \<open>The loads of one group\<close>

lemma graph_substitute_Load: "is_Load r \<Longrightarrow> graph_substitute n r r = r"
  by (cases r) simp_all

lemma graph_substitute_twice:
  "is_Load r \<Longrightarrow> graph_substitute n r (graph_substitute n r e) = graph_substitute n r e"
  by (induction e) (simp_all add: graph_substitute_Load cong: map_cong)

lemma graph_substitute_stmt_twice:
  assumes "is_Load r"
  shows "graph_substitute_stmt n r (graph_substitute_stmt n r s) = graph_substitute_stmt n r s"
proof (induction s)
  case (IfThenElse c t e)
  then show ?case by (cases e) (simp_all add: graph_substitute_twice[OF assms])
qed (simp_all add: graph_substitute_twice[OF assms] cong: map_cong)

lemma fold_same:
  assumes "is_Load r" "\<forall>l\<in>set v. l = n"
  shows "fold (\<lambda>l c. graph_substitute_stmt l r c) v (graph_substitute_stmt n r core) =
         graph_substitute_stmt n r core"
  using assms(2)
  by (induction v) (simp_all add: graph_substitute_stmt_twice[OF assms(1)])

lemma fold_group:
  assumes "is_Load r" "v \<noteq> []" "\<forall>l\<in>set v. l = hd v"
  shows "fold (\<lambda>l c. graph_substitute_stmt l r c) v core = graph_substitute_stmt (hd v) r core"
proof -
  from assms(2) obtain l v' where v: "v = l # v'" by (cases v) auto
  with assms(3) have "\<forall>x\<in>set v'. x = l" by simp
  from fold_same[OF assms(1) this] v show ?thesis by simp
qed

subsection \<open>The loop over one chain\<close>

lemma chain_loop_step:
  assumes "g < length loads" "loads ! g = l0 # ls"
  shows "chain_loop loads scratch n i (g # gs) (core, nf, sh, iv) =
     chain_loop loads scratch n (i + 1) gs
       (fold (\<lambda>l c. graph_substitute_stmt l (load_from_scratch scratch i l0) c) (loads ! g) core,
        (if i + 1 = n then nf @ [slot_store scratch l0 i (load_type l0)] else nf),
        (if 0 < i
         then sh @ [slot_store scratch (load_from_scratch scratch i l0) (i - 1) (load_type l0)]
         else sh),
        (if i + 1 = n then iv else iv @ [l0]))"
  using assms by (simp add: Let_def load_from_scratch_def slot_store_def)

lemma is_Load_scratch: "is_Load (load_from_scratch scratch i l)"
  by (simp add: load_from_scratch_def)

lemma chain_loop_closed:
  assumes "chain_loop loads scratch n i gs (core, nf, sh, iv) = Inr (core', nf', sh', iv')"
    and "\<forall>v\<in>set loads. uniform v"
  shows "core' = fold (\<lambda>(nd, r). graph_substitute_stmt nd r)
                   (map (redirection loads scratch) (enumerate i gs)) core \<and>
         nf' = nf @ map (\<lambda>(j, g). slot_store scratch (hd (loads ! g)) j
                                   (load_type (hd (loads ! g))))
                      (filter (\<lambda>(j, g). j + 1 = n) (enumerate i gs)) \<and>
         sh' = sh @ map (shuffle loads scratch) (filter (\<lambda>(j, g). 0 < j) (enumerate i gs)) \<and>
         (\<forall>g\<in>set gs. g < length loads)"
  using assms(1)
proof (induction gs arbitrary: i core nf sh iv)
  case Nil
  then show ?case by simp
next
  case (Cons g gs)
  from Cons.prems have gl: "g < length loads" by (auto split: if_splits)
  with assms(2) have u: "uniform (loads ! g)" by simp
  then obtain l0 ls where g: "loads ! g = l0 # ls" by (cases "loads ! g") (auto simp: uniform_def)
  then have hd: "hd (loads ! g) = l0" by simp
  define lfs where "lfs = load_from_scratch scratch i l0"
  define core1 where "core1 = graph_substitute_stmt l0 lfs core"
  define nf1 where "nf1 = (if i + 1 = n then nf @ [slot_store scratch l0 i (load_type l0)] else nf)"
  define iv1 where "iv1 = (if i + 1 = n then iv else iv @ [l0])"
  define sh1 where "sh1 = (if 0 < i
      then sh @ [slot_store scratch lfs (i - 1) (load_type l0)] else sh)"
  have f: "fold (\<lambda>l c. graph_substitute_stmt l lfs c) (loads ! g) core = core1"
    unfolding core1_def
    using fold_group[of lfs "loads ! g" core] u hd
    by (simp add: lfs_def is_Load_scratch uniform_def)
  have rec:
    "chain_loop loads scratch n (Suc i) gs (core1, nf1, sh1, iv1) = Inr (core', nf', sh', iv')"
    using Cons.prems
    unfolding chain_loop_step[OF gl g] f[unfolded lfs_def] nf1_def iv1_def sh1_def lfs_def
    by simp
  note ih = Cons.IH[OF rec]
  have c: "core' = fold (\<lambda>(nd, r). graph_substitute_stmt nd r)
      (map (redirection loads scratch) (enumerate i (g # gs))) core"
    using ih by (simp add: redirection_def hd core1_def lfs_def)
  have n: "nf' = nf @ map (\<lambda>(j, g). slot_store scratch (hd (loads ! g)) j
                                   (load_type (hd (loads ! g))))
                      (filter (\<lambda>(j, g). j + 1 = n) (enumerate i (g # gs)))"
    using ih by (simp add: nf1_def hd)
  have s: "sh' = sh @ map (shuffle loads scratch)
      (filter (\<lambda>(j, g). 0 < j) (enumerate i (g # gs)))"
    using ih by (simp add: sh1_def hd shuffle_def lfs_def)
  from c n s gl ih show ?case by simp
qed

lemma filter_last_position:
  "filter (\<lambda>(j, g). j + 1 = i + length gs) (enumerate i gs) =
     (if gs = [] then [] else [(i + length gs - 1, last gs)])"
proof (induction gs arbitrary: i)
  case Nil
  then show ?case by simp
next
  case (Cons g gs)
  from Cons.IH[of "Suc i"] show ?case by simp
qed

lemma filter_later_positions:
  "0 < i \<Longrightarrow> filter (\<lambda>(j, g). 0 < j) (enumerate i gs) = enumerate i gs"
  by (induction gs arbitrary: i) simp_all

lemma chain_loop_chain:
  assumes "chain_loop loads scratch (length c) 0 c (core, nf, sh, iv) = Inr (core', nf', sh', iv')"
    and "\<forall>v\<in>set loads. uniform v" and "c \<noteq> []"
  shows "core' = fold (\<lambda>(nd, r). graph_substitute_stmt nd r) (redirections loads scratch c) core \<and>
         nf' = nf @ [leading_edge_store loads scratch c] \<and>
         sh' = sh @ shuffle_stores loads scratch c \<and>
         (\<forall>g\<in>set c. g < length loads)"
proof -
  from assms(3) obtain g gs where c: "c = g # gs" by (cases c) auto
  have l: "filter (\<lambda>(j, g). j + 1 = length c) (enumerate 0 c) = [(length c - 1, last c)]"
    using filter_last_position[of 0 c] assms(3) by simp
  have t: "filter (\<lambda>(j, g). 0 < j) (enumerate 0 c) = tl (enumerate 0 c)"
    unfolding c using filter_later_positions[of "Suc 0" gs] by simp
  from chain_loop_closed[OF assms(1,2)] show ?thesis
    unfolding l t by (simp add: redirections_def leading_edge_store_def shuffle_stores_def Let_def)
qed

subsection \<open>The loop over the chains\<close>

lemma lift_chain_closed:
  assumes "lift_chain C loads lets c (core, nf, sh, st) = Inr (core', nf', sh', st')"
    and "\<forall>v\<in>set loads. uniform v"
  shows "c \<noteq> [] \<and> fresh st' = fresh st + 2 \<and>
         core' = fold (\<lambda>(nd, r). graph_substitute_stmt nd r)
                   (redirections loads (unique_name CHR ''c'' (fresh st)) c) core \<and>
         nf' = nf @ [leading_edge_store loads (unique_name CHR ''c'' (fresh st)) c] \<and>
         sh' = sh @ shuffle_stores loads (unique_name CHR ''c'' (fresh st)) c \<and>
         (\<forall>g\<in>set c. g < length loads)"
proof -
  let ?scratch = "unique_name CHR ''c'' (fresh st)"
  from assms(1) obtain iv where
    cl: "chain_loop loads ?scratch (length c) 0 c (core, nf, sh, []) = Inr (core', nf', sh', iv)"
    and ne: "c \<noteq> []" and fr: "fresh st' = fresh st + 2"
    unfolding lift_chain_def
    by (auto simp: Let_def split: sum.splits prod.splits Expr.splits option.splits list.splits
        if_splits)
  from chain_loop_chain[OF cl assms(2) ne] ne fr show ?thesis by simp
qed

lemma scratch_names_Suc:
  "scratch_names k (Suc n) = unique_name CHR ''c'' k # scratch_names (k + 2) n"
proof -
  have "[0..<Suc n] = 0 # map Suc [0..<n]"
    by (simp add: upt_conv_Cons map_Suc_upt del: upt_Suc)
  then show ?thesis by (simp add: scratch_names_def comp_def del: upt_Suc)
qed

lemma lift_chains_closed:
  assumes "lift_chains C loads lets cs (core, nf, sh, st) = Inr (core', nf', sh', st')"
    and "\<forall>v\<in>set loads. uniform v"
  shows "core' = fold (\<lambda>(nd, r). graph_substitute_stmt nd r)
                   (concat (map2 (redirections loads) (scratch_names (fresh st) (length cs)) cs))
                   core \<and>
         nf' = nf @ map2 (leading_edge_store loads) (scratch_names (fresh st) (length cs)) cs \<and>
         sh' = sh @ concat (map2 (shuffle_stores loads) (scratch_names (fresh st) (length cs)) cs) \<and>
         map alloc_name (allocs st') =
           map alloc_name (allocs st) @ scratch_names (fresh st) (length cs) \<and>
         (\<forall>c\<in>set cs. \<forall>g\<in>set c. g < length loads)"
  using assms(1)
proof (induction cs arbitrary: core nf sh st)
  case Nil
  then show ?case by (simp add: scratch_names_def)
next
  case (Cons c cs)
  from Cons.prems obtain core1 nf1 sh1 st1 where
    one: "lift_chain C loads lets c (core, nf, sh, st) = Inr (core1, nf1, sh1, st1)" and
    rest: "lift_chains C loads lets cs (core1, nf1, sh1, st1) = Inr (core', nf', sh', st')"
    by (auto split: sum.splits)
  let ?nm = "unique_name CHR ''c'' (fresh st)"
  from lift_chain_closed[OF one assms(2)] have
    o: "fresh st1 = fresh st + 2"
      "core1 = fold (\<lambda>(nd, r). graph_substitute_stmt nd r) (redirections loads ?nm c) core"
      "nf1 = nf @ [leading_edge_store loads ?nm c]"
      "sh1 = sh @ shuffle_stores loads ?nm c"
      "\<forall>g\<in>set c. g < length loads" by simp_all
  from lift_chain_allocs[OF one] have
    a: "map alloc_name (allocs st1) = map alloc_name (allocs st) @ [?nm]" by auto
  have nms: "scratch_names (fresh st) (length (c # cs)) =
      ?nm # scratch_names (fresh st1) (length cs)"
    by (simp add: scratch_names_Suc o(1))
  from Cons.IH[OF rest] o a show ?case unfolding nms by simp
qed

subsection \<open>Fresh names\<close>

lemma redirections_pairs:
  assumes "(n, r) \<in> set (concat (map2 (redirections loads) nms cs))"
  shows "\<exists>nm c i g. nm \<in> set nms \<and> c \<in> set cs \<and> g \<in> set c \<and> n = hd (loads ! g) \<and>
           r = load_from_scratch nm i n"
proof -
  from assms obtain nm c where z: "(nm, c) \<in> set (zip nms cs)"
    and m: "(n, r) \<in> set (redirections loads nm c)" by auto
  from m obtain i g where e: "(i, g) \<in> set (enumerate 0 c)"
    and p: "(n, r) = redirection loads nm (i, g)"
    by (auto simp: redirections_def)
  from e have "g \<in> set c" by (auto simp: in_set_enumerate_eq)
  moreover from z have "nm \<in> set nms" "c \<in> set cs"
    by (auto dest: set_zip_leftD set_zip_rightD)
  moreover from p have "n = hd (loads ! g)" "r = load_from_scratch nm i n"
    by (simp_all add: redirection_def)
  ultimately show ?thesis by blast
qed

lemma redirections_apart:
  assumes "\<forall>c\<in>set cs. \<forall>g\<in>set c. g < length loads"
    and "\<forall>v\<in>set loads. \<forall>m. load_name (hd v) \<noteq> unique_name CHR ''c'' m"
  shows "\<forall>(n, r)\<in>set (concat (map2 (redirections loads) (scratch_names k j) cs)).
           is_Load r \<and>
           r \<notin> fst ` set (concat (map2 (redirections loads) (scratch_names k j) cs))"
proof -
  let ?ps = "concat (map2 (redirections loads) (scratch_names k j) cs)"
  have needle: "\<forall>m. load_name n \<noteq> unique_name CHR ''c'' m" if "(n, r) \<in> set ?ps" for n r
  proof -
    from redirections_pairs[OF that] obtain c g where
      "c \<in> set cs" "g \<in> set c" "n = hd (loads ! g)" by blast
    with assms show ?thesis by simp
  qed
  have repl: "is_Load r \<and> (\<exists>m. load_name r = unique_name CHR ''c'' m)"
    if "(n, r) \<in> set ?ps" for n r
  proof -
    from redirections_pairs[OF that] obtain nm i where
      "nm \<in> set (scratch_names k j)" "r = load_from_scratch nm i n" by blast
    then show ?thesis by (auto simp: scratch_names_def load_from_scratch_def)
  qed
  show ?thesis
  proof (clarify, rule conjI)
    fix n r
    assume m: "(n, r) \<in> set ?ps"
    from repl[OF m] show "is_Load r" by simp
    show "r \<notin> fst ` set ?ps"
    proof
      assume "r \<in> fst ` set ?ps"
      then obtain p where "r = fst p" "p \<in> set ?ps" by (rule imageE)
      then have "(r, snd p) \<in> set ?ps" by simp
      from needle[OF this] repl[OF m] show False by auto
    qed
  qed
qed

subsection \<open>The statements of a block\<close>

lemma block_to_vector_Block_make2:
  "block_to_vector (Block_make2 a b) = block_to_vector a @ block_to_vector b"
  by (induction a b rule: Block_make2.induct) auto

lemma block_to_vector_Block_make:
  "Block_make ss = Some s \<Longrightarrow> block_to_vector s = concat (map block_to_vector ss)"
proof (induction ss arbitrary: s rule: Block_make.induct)
  case 1
  then show ?case by simp
next
  case (2 s')
  then show ?case by simp
next
  case (3 s1 s2 ss)
  from "3.prems" obtain r where r: "Block_make (s2 # ss) = Some r" "s = Block_make2 s1 r"
    by auto
  from "3.IH"[OF r(1)] r(2) show ?case by (simp add: block_to_vector_Block_make2)
qed

lemma block_to_vector_stores:
  "\<forall>x\<in>set ss. is_Store x \<Longrightarrow> concat (map block_to_vector ss) = ss"
proof (induction ss)
  case Nil
  then show ?case by simp
next
  case (Cons x ss)
  then have "is_Store x" by simp
  then have "block_to_vector x = [x]" by (cases x) simp_all
  with Cons show ?case by simp
qed

lemma block_to_vector_redirect:
  "block_to_vector (redirect_stmt \<sigma> s) = map (redirect_stmt \<sigma>) (block_to_vector s)"
  by (induction s) simp_all

lemma is_Store_slot: "is_Store (slot_store scratch v i t)"
  by (simp add: slot_store_def)

lemma leading_edge_stores_are_stores:
  "\<forall>x\<in>set (map2 (leading_edge_store loads) nms cs). is_Store x"
  by (auto simp: leading_edge_store_def Let_def is_Store_slot)

lemma shuffle_stores_are_stores:
  "\<forall>x\<in>set (concat (map2 (shuffle_stores loads) nms cs)). is_Store x"
  by (auto simp: shuffle_stores_def shuffle_def Let_def is_Store_slot)

text \<open>A load inside the index of another load is left alone, equal to the needle or not.\<close>

lemma nested_load_is_kept:
  "graph_substitute (ld (var ''x'')) (scratch_ld 0) (Add (ld (var ''x'')) (ld (ld (var ''x'')))) =
     Add (scratch_ld 0) (ld (ld (var ''x'')))"
  by (simp add: ld_def scratch_ld_def)

subsection \<open>Only loads are redirected\<close>

text \<open>
  \<open>redirected \<sigma> e e'\<close>: the expression \<open>e'\<close> is \<open>e\<close>, but for loads that the table \<open>\<sigma>\<close> names
  and that are replaced by their entries. Nothing else may differ; a load that is kept may
  have such replacements inside its index and predicate.
\<close>

fun redirected :: "(Expr \<rightharpoonup> Expr) \<Rightarrow> Expr \<Rightarrow> Expr \<Rightarrow> bool" where
  "redirected \<sigma> (Load t n i im pa p) e' =
     (\<sigma> (Load t n i im pa p) = Some e' \<or>
      (case e' of
         Load t' n' i' im' pa' p' \<Rightarrow>
           t' = t \<and> n' = n \<and> im' = im \<and> pa' = pa \<and> redirected \<sigma> i i' \<and> redirected \<sigma> p p'
       | _ \<Rightarrow> False))"
| "redirected \<sigma> (IntImm t v) e' = (e' = IntImm t v)"
| "redirected \<sigma> (UIntImm t v) e' = (e' = UIntImm t v)"
| "redirected \<sigma> (Variable t n) e' = (e' = Variable t n)"
| "redirected \<sigma> (Add a b) e' =
     (case e' of Add a' b' \<Rightarrow> redirected \<sigma> a a' \<and> redirected \<sigma> b b' | _ \<Rightarrow> False)"
| "redirected \<sigma> (Sub a b) e' =
     (case e' of Sub a' b' \<Rightarrow> redirected \<sigma> a a' \<and> redirected \<sigma> b b' | _ \<Rightarrow> False)"
| "redirected \<sigma> (Mul a b) e' =
     (case e' of Mul a' b' \<Rightarrow> redirected \<sigma> a a' \<and> redirected \<sigma> b b' | _ \<Rightarrow> False)"
| "redirected \<sigma> (EQ a b) e' =
     (case e' of EQ a' b' \<Rightarrow> redirected \<sigma> a a' \<and> redirected \<sigma> b b' | _ \<Rightarrow> False)"
| "redirected \<sigma> (GT a b) e' =
     (case e' of GT a' b' \<Rightarrow> redirected \<sigma> a a' \<and> redirected \<sigma> b b' | _ \<Rightarrow> False)"
| "redirected \<sigma> (Ramp base stride n) e' =
     (case e' of
        Ramp base' stride' n' \<Rightarrow> n' = n \<and> redirected \<sigma> base base' \<and> redirected \<sigma> stride stride'
      | _ \<Rightarrow> False)"
| "redirected \<sigma> (Broadcast v n) e' =
     (case e' of Broadcast v' n' \<Rightarrow> n' = n \<and> redirected \<sigma> v v' | _ \<Rightarrow> False)"
| "redirected \<sigma> (Let_e n v b) e' =
     (case e' of
        Let_e n' v' b' \<Rightarrow> n' = n \<and> redirected \<sigma> v v' \<and> redirected \<sigma> b b'
      | _ \<Rightarrow> False)"
| "redirected \<sigma> (Call t n args ct) e' =
     (case e' of
        Call t' n' args' ct' \<Rightarrow> t' = t \<and> n' = n \<and> ct' = ct \<and> list_all2 (redirected \<sigma>) args args'
      | _ \<Rightarrow> False)"

fun redirected_stmt :: "(Expr \<rightharpoonup> Expr) \<Rightarrow> Stmt \<Rightarrow> Stmt \<Rightarrow> bool" where
  "redirected_stmt \<sigma> (Store n v i pa p) s' =
     (case s' of
        Store n' v' i' pa' p' \<Rightarrow>
          n' = n \<and> pa' = pa \<and> redirected \<sigma> v v' \<and> redirected \<sigma> i i' \<and> redirected \<sigma> p p'
      | _ \<Rightarrow> False)"
| "redirected_stmt \<sigma> (Block a b) s' =
     (case s' of Block a' b' \<Rightarrow> redirected_stmt \<sigma> a a' \<and> redirected_stmt \<sigma> b b' | _ \<Rightarrow> False)"
| "redirected_stmt \<sigma> (LetStmt n v b) s' =
     (case s' of
        LetStmt n' v' b' \<Rightarrow> n' = n \<and> redirected \<sigma> v v' \<and> redirected_stmt \<sigma> b b'
      | _ \<Rightarrow> False)"
| "redirected_stmt \<sigma> (For n mn ext ft pp da b) s' =
     (case s' of
        For n' mn' ext' ft' pp' da' b' \<Rightarrow>
          n' = n \<and> ft' = ft \<and> pp' = pp \<and> da' = da \<and> redirected \<sigma> mn mn' \<and>
          redirected \<sigma> ext ext' \<and> redirected_stmt \<sigma> b b'
      | _ \<Rightarrow> False)"
| "redirected_stmt \<sigma> (IfThenElse c t e) s' =
     (case s' of
        IfThenElse c' t' e' \<Rightarrow>
          redirected \<sigma> c c' \<and> redirected_stmt \<sigma> t t' \<and> rel_option (redirected_stmt \<sigma>) e e'
      | _ \<Rightarrow> False)"
| "redirected_stmt \<sigma> (ProducerConsumer n p b) s' =
     (case s' of
        ProducerConsumer n' p' b' \<Rightarrow> n' = n \<and> p' = p \<and> redirected_stmt \<sigma> b b'
      | _ \<Rightarrow> False)"
| "redirected_stmt \<sigma> (Allocate n t m exts c b) s' =
     (case s' of
        Allocate n' t' m' exts' c' b' \<Rightarrow>
          n' = n \<and> t' = t \<and> m' = m \<and> list_all2 (redirected \<sigma>) exts exts' \<and>
          redirected \<sigma> c c' \<and> redirected_stmt \<sigma> b b'
      | _ \<Rightarrow> False)"
| "redirected_stmt \<sigma> (Evaluate e) s' =
     (case s' of Evaluate e' \<Rightarrow> redirected \<sigma> e e' | _ \<Rightarrow> False)"

lemma redirected_refl: "redirected \<sigma> e e"
  by (induction e) (simp_all add: list_all2_same)

lemma redirected_redirect: "redirected \<sigma> e (redirect \<sigma> e)"
proof (induction e)
  case (Load t n i im pa p)
  then show ?case by (cases "\<sigma> (Load t n i im pa p)") (simp_all add: redirected_refl)
next
  case (Call t n args ct)
  then show ?case by (simp add: list_all2_map2 list_all2_same)
qed simp_all

lemma redirected_stmt_redirect: "redirected_stmt \<sigma> s (redirect_stmt \<sigma> s)"
proof (induction s)
  case (IfThenElse c t e)
  then show ?case by (cases e) (simp_all add: redirected_redirect)
next
  case (Allocate n t m exts c b)
  then show ?case by (simp add: redirected_redirect list_all2_map2 list_all2_same)
qed (simp_all add: redirected_redirect)

text \<open>A run without let expressions is its own \<^verbatim>\<open>graph_stmt\<close>: there is nothing to
  substitute in.\<close>

fun let_free :: "Expr \<Rightarrow> bool" where
  "let_free (Let_e n v b) = False"
| "let_free (IntImm t v) = True"
| "let_free (UIntImm t v) = True"
| "let_free (Variable t n) = True"
| "let_free (Add a b) = (let_free a \<and> let_free b)"
| "let_free (Sub a b) = (let_free a \<and> let_free b)"
| "let_free (Mul a b) = (let_free a \<and> let_free b)"
| "let_free (EQ a b) = (let_free a \<and> let_free b)"
| "let_free (GT a b) = (let_free a \<and> let_free b)"
| "let_free (Ramp base stride n) = (let_free base \<and> let_free stride)"
| "let_free (Broadcast v n) = let_free v"
| "let_free (Load t n i im pa p) = (let_free i \<and> let_free p)"
| "let_free (Call t n args ct) = list_all let_free args"

fun let_free_stmt :: "Stmt \<Rightarrow> bool" where
  "let_free_stmt (LetStmt n v b) = False"
| "let_free_stmt (Store n v i pa p) = (let_free v \<and> let_free i \<and> let_free p)"
| "let_free_stmt (Block a b) = (let_free_stmt a \<and> let_free_stmt b)"
| "let_free_stmt (For n mn ext ft pp da b) = (let_free mn \<and> let_free ext \<and> let_free_stmt b)"
| "let_free_stmt (IfThenElse c t e) =
     (let_free c \<and> let_free_stmt t \<and> (case e of None \<Rightarrow> True | Some s \<Rightarrow> let_free_stmt s))"
| "let_free_stmt (ProducerConsumer n p b) = let_free_stmt b"
| "let_free_stmt (Allocate n t m exts c b) =
     (list_all let_free exts \<and> let_free c \<and> let_free_stmt b)"
| "let_free_stmt (Evaluate e) = let_free e"

lemma sil_expr_let_free: "let_free e \<Longrightarrow> sil_expr Map.empty e = e"
  by (induction e) (simp_all add: list_all_iff map_idI)

lemma substitute_in_all_lets_stmt_let_free:
  "let_free_stmt s \<Longrightarrow> substitute_in_all_lets_stmt s = s"
  unfolding substitute_in_all_lets_stmt_def
proof (induction s)
  case (IfThenElse c t e)
  then show ?case by (cases e) (simp_all add: sil_expr_let_free)
qed (simp_all add: sil_expr_let_free list_all_iff map_idI)

text \<open>No load of the statement has a load in its index or in its predicate.\<close>

definition flat_loads :: "Stmt \<Rightarrow> bool" where
  "flat_loads s =
     list_all (\<lambda>l. find_loads (load_index l) = [] \<and> find_loads (load_predicate l) = [])
       (find_loads_stmt s)"

text \<open>
  Claim C8. A run of stores that is rewritten is returned as the final CSE pass applied
  to a block \<open>s0\<close> of, in this order: the leading-edge stores, one per kept chain; the core;
  the shuffles of the chains. The core is the run with its lets substituted in (the
  \<^verbatim>\<open>graph_stmt\<close> of the code, the run itself when it has no let expression) but for loads
  of the carried groups that are replaced by the loads from their scratch slots: every
  store of the run is there, to its buffer, in its place. When no load of the run has a load inside it, every load of a carried group is a
  node that \<^verbatim>\<open>FindLoads\<close> collected, and the core is the run with exactly these loads
  replaced. The scratch buffers are those of the allocations that the run adds.
  \<^verbatim>\<open>unique_name\<close> returns names that no buffer of the program has: that is the last
  assumption.
\<close>

theorem rewritten_stores_in_order:
  assumes "lift_carried_values_out_of_stmt C k in_consume linear lets s st = Inr (s', st')"
    and "loads = group_loads in_consume (find_loads_stmt (substitute_in_all_lets_stmt s)) []"
    and "find_chains C linear loads \<noteq> []"
    and "\<forall>l\<in>set (find_loads_stmt (substitute_in_all_lets_stmt s)).
           \<forall>m. load_name l \<noteq> unique_name CHR ''c'' m"
  shows "\<exists>cs nms s0 core.
           select_chains k (find_chains C linear loads) = Inr cs \<and>
           nms = scratch_names (fresh st) (length cs) \<and>
           map alloc_name (allocs st') = map alloc_name (allocs st) @ nms \<and>
           s' = common_subexpression_elimination_stmt C s0 \<and>
           block_to_vector s0 =
             map2 (leading_edge_store loads) nms cs @
             block_to_vector core @
             concat (map2 (shuffle_stores loads) nms cs) \<and>
           redirected_stmt (map_of (concat (map2 (redirections loads) nms cs)))
             (substitute_in_all_lets_stmt s) core \<and>
           (flat_loads (substitute_in_all_lets_stmt s) \<longrightarrow>
            core = redirect_stmt (map_of (concat (map2 (redirections loads) nms cs)))
                     (substitute_in_all_lets_stmt s))"
proof -
  let ?g = "substitute_in_all_lets_stmt s"
  from assms(1,3) obtain cs core nf sh s1 s3 where
    sel: "select_chains k (find_chains C linear loads) = Inr cs" and
    lc: "lift_chains C loads lets cs (?g, [], [], st) = Inr (core, nf, sh, st')" and
    b1: "Block_make nf = Some s1" and b3: "Block_make sh = Some s3" and
    out: "s' = common_subexpression_elimination_stmt C (Block_make2 (Block_make2 s1 core) s3)"
    by (auto simp: lift_carried_values_out_of_stmt_def Let_def assms(2)
        split: sum.splits prod.splits option.splits)
  define nms where "nms = scratch_names (fresh st) (length cs)"
  define ps where "ps = concat (map2 (redirections loads) nms cs)"
  have u: "\<forall>v\<in>set loads. uniform v"
    unfolding assms(2) by (rule group_loads_uniform) simp
  have f: "\<forall>v\<in>set loads. \<forall>m. load_name (hd v) \<noteq> unique_name CHR ''c'' m"
    unfolding assms(2) using group_loads_found assms(4) by blast
  from lift_chains_closed[OF lc u] have
    c: "core = fold (\<lambda>(nd, r). graph_substitute_stmt nd r) ps ?g" and
    n: "nf = map2 (leading_edge_store loads) nms cs" and
    h: "sh = concat (map2 (shuffle_stores loads) nms cs)" and
    a: "map alloc_name (allocs st') = map alloc_name (allocs st) @ nms" and
    b: "\<forall>c\<in>set cs. \<forall>g\<in>set c. g < length loads"
    by (simp_all add: nms_def ps_def)
  have core: "core = redirect_stmt (map_of ps) ?g"
    unfolding c ps_def nms_def
    by (rule fold_substitute_redirect) (rule redirections_apart[OF b f])
  then have rel: "redirected_stmt (map_of ps) ?g core"
    by (simp add: redirected_stmt_redirect)
  have v1: "block_to_vector s1 = nf"
    using block_to_vector_Block_make[OF b1]
      block_to_vector_stores[OF leading_edge_stores_are_stores, of loads nms cs]
    by (simp add: n)
  have v3: "block_to_vector s3 = sh"
    using block_to_vector_Block_make[OF b3]
      block_to_vector_stores[OF shuffle_stores_are_stores, of loads nms cs]
    by (simp add: h)
  have "block_to_vector (Block_make2 (Block_make2 s1 core) s3) =
      map2 (leading_edge_store loads) nms cs @ block_to_vector core @
      concat (map2 (shuffle_stores loads) nms cs)"
    by (simp add: block_to_vector_Block_make2 v1 v3 n h)
  with sel a out rel core show ?thesis unfolding ps_def nms_def by blast
qed

theorem rewritten_stores_in_order_witness:
  "lift_carried_values_out_of_stmt plain 8 {} loop_scope [] stencil st0 =
     Inr (stencil_body, stencil_state) \<and>
   select_chains 8 (find_chains plain loop_scope stencil_loads) = Inr [[0, 1, 2]] \<and>
   map alloc_name (allocs stencil_state) = [''c0''] \<and>
   flat_loads (substitute_in_all_lets_stmt stencil) \<and>
   block_to_vector stencil_body =
     [leading_edge_store stencil_loads ''c0'' [0, 1, 2]] @
     [redirect_stmt (map_of (redirections stencil_loads ''c0'' [0, 1, 2])) stencil] @
     shuffle_stores stencil_loads ''c0'' [0, 1, 2] \<and>
   leading_edge_store stencil_loads ''c0'' [0, 1, 2] =
     scratch_st (ld (Add (Add (var ''x'') (i32 1)) (i32 1))) 2 \<and>
   redirect_stmt (map_of (redirections stencil_loads ''c0'' [0, 1, 2])) stencil =
     Store ''out'' (Add (Add (scratch_ld 0) (scratch_ld 1)) (scratch_ld 2)) (var ''x'') None
       (const_true 1) \<and>
   shuffle_stores stencil_loads ''c0'' [0, 1, 2] =
     [scratch_st (scratch_ld 1) 0, scratch_st (scratch_ld 2) 1]"
proof -
  have g: "stencil_loads = group_loads {} (find_loads_stmt (substitute_in_all_lets_stmt stencil)) []"
    by (simp add: stencil_group)
  have e: "find_chains plain loop_scope stencil_loads \<noteq> []"
    by (simp add: stencil_edges)
  have f: "\<forall>l\<in>set (find_loads_stmt (substitute_in_all_lets_stmt stencil)).
      \<forall>m. load_name l \<noteq> unique_name CHR ''c'' m"
    by (simp add: substitute_in_all_lets_stmt_def unique_name_def ir_defs)
  have sel: "select_chains 8 (find_chains plain loop_scope stencil_loads) = Inr [[0, 1, 2]]"
    unfolding stencil_edges by (rule select_stencil(1))
  have nm: "scratch_names (fresh st0) (length [[0 :: nat, 1, 2]]) = [''c0'']"
    by (simp add: scratch_names_def st0_def unique_name_def string_of_nat.simps)
  have sil: "substitute_in_all_lets_stmt stencil = stencil"
    by (simp add: substitute_in_all_lets_stmt_def ir_defs)
  have fl: "flat_loads (substitute_in_all_lets_stmt stencil)"
    unfolding sil by (simp add: flat_loads_def ir_defs)
  from rewritten_stores_in_order[OF lift_stencil_eight g e f] obtain cs s0 core where
    r: "select_chains 8 (find_chains plain loop_scope stencil_loads) = Inr cs"
      "map alloc_name (allocs stencil_state) =
         map alloc_name (allocs st0) @ scratch_names (fresh st0) (length cs)"
      "stencil_body = common_subexpression_elimination_stmt plain s0"
      "block_to_vector s0 =
         map2 (leading_edge_store stencil_loads) (scratch_names (fresh st0) (length cs)) cs @
         block_to_vector core @
         concat (map2 (shuffle_stores stencil_loads) (scratch_names (fresh st0) (length cs)) cs)"
      "flat_loads (substitute_in_all_lets_stmt stencil) \<longrightarrow>
       core = redirect_stmt (map_of (concat (map2 (redirections stencil_loads)
                (scratch_names (fresh st0) (length cs)) cs)))
           (substitute_in_all_lets_stmt stencil)"
    by blast
  from r(1) sel have cs: "cs = [[0, 1, 2]]" by simp
  from r(3) have s0: "s0 = stencil_body" by (simp add: plain_def)
  from r(5) fl have core: "core =
      redirect_stmt (map_of (redirections stencil_loads ''c0'' [0, 1, 2])) stencil"
    unfolding cs nm sil by simp
  have st: "block_to_vector core = [core]" unfolding core by (simp add: stencil_def)
  have a: "map alloc_name (allocs stencil_state) = [''c0'']"
    using r(2) unfolding cs nm by (simp add: st0_def)
  have b: "block_to_vector stencil_body =
     [leading_edge_store stencil_loads ''c0'' [0, 1, 2]] @
     [redirect_stmt (map_of (redirections stencil_loads ''c0'' [0, 1, 2])) stencil] @
     shuffle_stores stencil_loads ''c0'' [0, 1, 2]"
    using r(4) unfolding cs nm s0 st by (simp add: core)
  have l: "leading_edge_store stencil_loads ''c0'' [0, 1, 2] =
     scratch_st (ld (Add (Add (var ''x'') (i32 1)) (i32 1))) 2"
    by (simp add: leading_edge_store_def slot_store_def scratch_st_def scratch_index_def
        Let_def ir_defs)
  have c: "redirect_stmt (map_of (redirections stencil_loads ''c0'' [0, 1, 2])) stencil =
     Store ''out'' (Add (Add (scratch_ld 0) (scratch_ld 1)) (scratch_ld 2)) (var ''x'') None
       (const_true 1)"
    by (simp add: redirections_def redirection_def load_from_scratch_def scratch_ld_def
        scratch_index_def Let_def ir_defs)
  have h: "shuffle_stores stencil_loads ''c0'' [0, 1, 2] =
     [scratch_st (scratch_ld 1) 0, scratch_st (scratch_ld 2) 1]"
    by (simp add: shuffle_stores_def shuffle_def load_from_scratch_def slot_store_def
        scratch_st_def scratch_ld_def scratch_index_def Let_def ir_defs)
  from lift_stencil_eight sel a fl b l c h show ?thesis by (intro conjI)
qed

section \<open>Inputs the pass leaves alone\<close>

fun is_Block :: "Stmt \<Rightarrow> bool" where
  "is_Block (Block a b) = True"
| "is_Block s = False"

text \<open>The block nesting that the constructors \<^verbatim>\<open>Block::make\<close> build: the first statement
  of a block is never a block.\<close>

fun canonical :: "Stmt \<Rightarrow> bool" where
  "canonical (Block a b) = (\<not> is_Block a \<and> canonical a \<and> canonical b)"
| "canonical (LetStmt n v b) = canonical b"
| "canonical (For n mn ext ft pp da b) = canonical b"
| "canonical (IfThenElse c t e) =
     (canonical t \<and> (case e of None \<Rightarrow> True | Some s \<Rightarrow> canonical s))"
| "canonical (ProducerConsumer n p b) = canonical b"
| "canonical (Allocate n t m exts c b) = canonical b"
| "canonical (Store n v i pa p) = True"
| "canonical (Evaluate e) = True"

text \<open>The right-nested block of a list of statements.\<close>

definition chain :: "Stmt list \<Rightarrow> Stmt" where
  "chain ys = foldr Block (butlast ys) (last ys)"

lemma chain_Cons: "ys \<noteq> [] \<Longrightarrow> chain (y # ys) = Block y (chain ys)"
  by (simp add: chain_def)

lemma chain_single: "chain [y] = y"
  by (simp add: chain_def)

lemma block_to_vector_nonempty: "block_to_vector s \<noteq> []"
  by (induction s rule: block_to_vector.induct) auto

lemma block_to_vector_no_block: "x \<in> set (block_to_vector s) \<Longrightarrow> \<not> is_Block x"
  by (induction s rule: block_to_vector.induct) auto

lemma block_to_vector_leaf: "\<not> is_Block s \<Longrightarrow> block_to_vector s = [s]"
  by (cases s) auto

lemma block_to_vector_canonical:
  "canonical s \<Longrightarrow> x \<in> set (block_to_vector s) \<Longrightarrow> canonical x"
  by (induction s rule: block_to_vector.induct) auto

lemma chain_block_to_vector: "canonical s \<Longrightarrow> chain (block_to_vector s) = s"
proof (induction s rule: block_to_vector.induct)
  case (1 first rest)
  then have "block_to_vector first = [first]" by (simp add: block_to_vector_leaf)
  with 1 show ?case by (simp add: chain_Cons block_to_vector_nonempty)
qed (simp_all add: chain_single)

text \<open>A statement whose top-level block nesting is the constructors'.\<close>

fun tc :: "Stmt \<Rightarrow> bool" where
  "tc (Block a b) = (\<not> is_Block a \<and> tc b)"
| "tc s = True"

lemma tc_leaf: "\<not> is_Block s \<Longrightarrow> tc s"
  by (cases s) auto

lemma Block_make2_tc:
  "tc a \<Longrightarrow> Block_make2 a r = foldr Block (block_to_vector a) r"
proof (induction a r rule: Block_make2.induct)
  case (1 f r rest)
  then show ?case by (simp add: block_to_vector_leaf)
qed simp_all

lemma chain_append: "ys \<noteq> [] \<Longrightarrow> chain (xs @ ys) = foldr Block xs (chain ys)"
  by (induction xs) (simp_all add: chain_Cons)

lemma chain_tc: "tc s \<Longrightarrow> chain (block_to_vector s) = s"
proof (induction s rule: block_to_vector.induct)
  case (1 first rest)
  then have "block_to_vector first = [first]" by (simp add: block_to_vector_leaf)
  with 1 show ?case by (simp add: chain_Cons block_to_vector_nonempty)
qed (simp_all add: chain_single)

definition flat :: "Stmt list \<Rightarrow> Stmt list" where
  "flat xs = concat (map block_to_vector xs)"

lemma flat_nonempty: "xs \<noteq> [] \<Longrightarrow> flat xs \<noteq> []"
  by (cases xs) (simp_all add: flat_def block_to_vector_nonempty)

lemma Block_make_flat:
  "xs \<noteq> [] \<Longrightarrow> \<forall>x\<in>set xs. tc x \<Longrightarrow> Block_make xs = Some (chain (flat xs))"
proof (induction xs rule: Block_make.induct)
  case 1
  then show ?case by simp
next
  case (2 s)
  then show ?case by (simp add: flat_def chain_tc)
next
  case (3 s s' ss)
  then have ih: "Block_make (s' # ss) = Some (chain (flat (s' # ss)))" by simp
  have ne: "flat (s' # ss) \<noteq> []" by (rule flat_nonempty) simp
  have "flat (s # s' # ss) = block_to_vector s @ flat (s' # ss)" by (simp add: flat_def)
  then have "chain (flat (s # s' # ss)) = foldr Block (block_to_vector s) (chain (flat (s' # ss)))"
    using ne by (simp add: chain_append)
  with ih "3.prems" show ?case by (simp add: Block_make2_tc)
qed

lemma chain_stores_tc: "ys \<noteq> [] \<Longrightarrow> \<forall>x\<in>set ys. \<not> is_Block x \<Longrightarrow> tc (chain ys)"
proof (induction ys)
  case Nil
  then show ?case by simp
next
  case (Cons y ys)
  show ?case
  proof (cases "ys = []")
    case True
    with Cons.prems show ?thesis by (simp add: chain_single tc_leaf)
  next
    case False
    with Cons show ?thesis by (simp add: chain_Cons)
  qed
qed

lemma block_to_vector_chain:
  "ys \<noteq> [] \<Longrightarrow> \<forall>x\<in>set ys. \<not> is_Block x \<Longrightarrow> block_to_vector (chain ys) = ys"
proof (induction ys)
  case Nil
  then show ?case by simp
next
  case (Cons y ys)
  show ?case
  proof (cases "ys = []")
    case True
    with Cons.prems show ?thesis by (simp add: chain_single block_to_vector_leaf)
  next
    case False
    with Cons show ?thesis by (simp add: chain_Cons block_to_vector_leaf)
  qed
qed

lemma Block_make_leaves:
  assumes "ys \<noteq> []" "\<forall>x\<in>set ys. \<not> is_Block x"
  shows "Block_make ys = Some (chain ys)"
proof -
  have "flat ys = ys" using assms(2)
    by (induction ys) (simp_all add: flat_def block_to_vector_leaf)
  with Block_make_flat[OF assms(1)] assms(2) show ?thesis by (simp add: tc_leaf)
qed

lemma Block_make_None: "Block_make ys = None \<longleftrightarrow> ys = []"
  by (induction ys rule: Block_make.induct) auto

lemma is_Store_no_block: "is_Store x \<Longrightarrow> \<not> is_Block x"
  by (cases x) auto

text \<open>
  The probe takes the place of \<^verbatim>\<open>lift_carried_values_out_of_stmt\<close> in the traversal: it
  detects the edges of the run as the rewriter does and changes nothing.
\<close>

definition probe :: "'a collab_scheme \<Rightarrow> string set \<Rightarrow> lift_fn" where
  "probe C in_consume linear containing_lets s st =
     (if find_chains C linear
           (group_loads in_consume (find_loads_stmt (substitute_in_all_lets_stmt s)) []) = []
      then Inr (s, st) else Inl CarryFound)"

definition quiet :: "lift_fn \<Rightarrow> lift_fn \<Rightarrow> bool" where
  "quiet L1 L2 \<longleftrightarrow>
     (\<forall>linear lets s st r. L1 linear lets s st = Inr r \<longrightarrow>
        r = (s, st) \<and> (\<forall>st2. L2 linear lets s st2 = Inr (s, st2)))"

lemma quiet_probe: "quiet (probe C ic) (lift_carried_values_out_of_stmt C k ic)"
  by (auto simp: quiet_def probe_def lift_carried_values_out_of_stmt_def Let_def
      split: if_splits)

lemma quietD:
  "quiet L1 L2 \<Longrightarrow> L1 linear lets s st = Inr r \<Longrightarrow>
   r = (s, st) \<and> (\<forall>st2. L2 linear lets s st2 = Inr (s, st2))"
  unfolding quiet_def by blast

lemma carry_quiet:
  fixes L2 :: lift_fn
  shows "quiet L1 L2 \<Longrightarrow> carry_mutate L1 linear lets s st = Inr r \<Longrightarrow> canonical s \<Longrightarrow>
         r = (s, st) \<and> (\<forall>st2. carry_mutate L2 linear lets s st2 = Inr (s, st2))"
    and "quiet L1 L2 \<Longrightarrow> carry_block L1 linear lets v stores result st = Inr r \<Longrightarrow>
         \<forall>x\<in>set v. canonical x \<and> \<not> is_Block x \<Longrightarrow> \<forall>x\<in>set stores. is_Store x \<Longrightarrow>
         \<forall>x\<in>set result. tc x \<Longrightarrow>
         r = (chain (flat result @ stores @ v), st) \<and>
         (\<forall>st2. carry_block L2 linear lets v stores result st2 =
                  Inr (chain (flat result @ stores @ v), st2))"
proof (induction L1 linear lets s st and L1 linear lets v stores result st
       arbitrary: r and r rule: carry_mutate_carry_block.induct)
  case (1 lift linear containing_lets n v b st)
  from "1.prems"(2) obtain body st' where
    b: "carry_mutate lift (linear(n \<mapsto> is_linear v linear)) (containing_lets @ [(n, v)]) b st
          = Inr (body, st')" and r: "r = (LetStmt n v body, st')"
    by (auto simp: Let_def split: sum.splits)
  have cb: "canonical b" using "1.prems"(3) by simp
  note ih = "1.IH"[OF refl "1.prems"(1) b cb]
  from ih have q: "body = b" "st' = st" by simp_all
  from ih have q2: "\<And>st2. carry_mutate L2 (linear(n \<mapsto> is_linear v linear))
      (containing_lets @ [(n, v)]) b st2 = Inr (b, st2)" by blast
  show ?case using r q by (simp add: Let_def q2)
next
  case (2 lift linear containing_lets n v i pa p st)
  from quietD[OF "2.prems"(1), of linear containing_lets "Store n v i pa p" st r] "2.prems"(2)
  show ?case by simp
next
  case (3 lift linear containing_lets a b st)
  let ?v = "block_to_vector (Block a b)"
  from "3.prems"(2) have cb: "carry_block lift linear containing_lets ?v [] [] st = Inr r"
    by simp
  have v: "\<forall>x\<in>set ?v. canonical x \<and> \<not> is_Block x"
    using block_to_vector_canonical[OF "3.prems"(3)] block_to_vector_no_block by blast
  from "3.IH"[OF "3.prems"(1) cb v] chain_block_to_vector[OF "3.prems"(3)]
  show ?case by (simp add: flat_def)
next
  case (4 lift linear containing_lets n mn ext ft pp da b st)
  then show ?case by auto
next
  case (5 lift linear containing_lets c t e st)
  then show ?case by auto
next
  case (6 lift linear containing_lets n p b st)
  from "6.prems"(2) obtain body st' where
    b: "carry_mutate lift linear containing_lets b st = Inr (body, st')"
    and r: "r = (ProducerConsumer n p body, st')"
    by (auto split: sum.splits)
  from "6.IH"[OF "6.prems"(1) b] "6.prems"(3) r show ?case by auto
next
  case (7 lift linear containing_lets n t m exts c b st)
  from "7.prems"(2) obtain body st' where
    b: "carry_mutate lift linear containing_lets b st = Inr (body, st')"
    and r: "r = (Allocate n t m exts c body, st')"
    by (auto split: sum.splits)
  from "7.IH"[OF "7.prems"(1) b] "7.prems"(3) r show ?case by auto
next
  case (8 lift linear containing_lets e st)
  then show ?case by auto
next
  case (9 lift linear containing_lets stores result st)
  show ?case
  proof (cases "stores = []")
    case True
    then have bs: "Block_make stores = None" by simp
    with "9.prems"(2) have "result \<noteq> []"
      by (auto simp: Block_make_None split: option.splits)
    from Block_make_flat[OF this "9.prems"(5)] bs "9.prems"(2) True show ?thesis
      by simp
  next
    case False
    have nb: "\<forall>x\<in>set stores. \<not> is_Block x" using "9.prems"(4) is_Store_no_block by blast
    let ?run = "chain stores"
    have bs: "Block_make stores = Some ?run" using Block_make_leaves[OF False nb] .
    with "9.prems"(2) obtain s' st' where
      l: "lift linear containing_lets ?run st = Inr (s', st')"
      by (auto split: sum.splits)
    from quietD[OF "9.prems"(1) l] have q: "s' = ?run" "st' = st"
      "\<forall>st2. L2 linear containing_lets ?run st2 = Inr (?run, st2)" by auto
    have "\<forall>x\<in>set (result @ [?run]). tc x"
      using "9.prems"(5) chain_stores_tc[OF False nb] by auto
    from Block_make_flat[OF _ this]
    have bm: "Block_make (result @ [?run]) = Some (chain (flat (result @ [?run])))" by simp
    have "flat (result @ [?run]) = flat result @ stores"
      by (simp add: flat_def block_to_vector_chain[OF False nb])
    with bm bs l q "9.prems"(2) show ?thesis by simp
  qed
next
  case (10 lift linear containing_lets stmt v stores result st)
  from "10.prems"(3) have sc: "canonical stmt" "\<not> is_Block stmt"
    and vc: "\<forall>x\<in>set v. canonical x \<and> \<not> is_Block x" by auto
  show ?case
  proof (cases "is_Store stmt")
    case True
    with "10.prems"(2) have
      cb: "carry_block lift linear containing_lets v (stores @ [stmt]) result st = Inr r"
      by simp
    have "\<forall>x\<in>set (stores @ [stmt]). is_Store x" using "10.prems"(4) True by auto
    from "10.IH"(1)[OF True "10.prems"(1) cb vc this "10.prems"(5)] True
    show ?thesis by simp
  next
    case ns: False
    show ?thesis
    proof (cases "stores = []")
      case True
      then have bs: "Block_make stores = None" by simp
      with "10.prems"(2) ns obtain s' st' where
        m: "carry_mutate lift linear containing_lets stmt st = Inr (s', st')" and
        cb: "carry_block lift linear containing_lets v [] (result @ [s']) st' = Inr r"
        by (auto split: sum.splits)
      from "10.IH"(2)[OF ns bs "10.prems"(1) m sc(1)]
      have q: "s' = stmt" "st' = st"
        "\<forall>st2. carry_mutate L2 linear containing_lets stmt st2 = Inr (stmt, st2)" by auto
      have t: "\<forall>x\<in>set (result @ [s']). tc x" using "10.prems"(5) q(1) sc(2) tc_leaf by auto
      from "10.IH"(3)[OF ns bs m refl "10.prems"(1) cb vc _ t]
      have "r = (chain (flat (result @ [s']) @ [] @ v), st') \<and>
        (\<forall>st2. carry_block L2 linear containing_lets v [] (result @ [s']) st2 =
           Inr (chain (flat (result @ [s']) @ [] @ v), st2))" by simp
      moreover have "flat (result @ [s']) @ [] @ v = flat result @ stores @ stmt # v"
        using q(1) True sc(2) by (simp add: flat_def block_to_vector_leaf)
      ultimately show ?thesis using q bs ns by simp
    next
      case False
      have nb: "\<forall>x\<in>set stores. \<not> is_Block x" using "10.prems"(4) is_Store_no_block by blast
      let ?run = "chain stores"
      have bs: "Block_make stores = Some ?run" using Block_make_leaves[OF False nb] .
      with "10.prems"(2) ns obtain r' st1 s' st' where
        l: "lift linear containing_lets ?run st = Inr (r', st1)" and
        m: "carry_mutate lift linear containing_lets stmt st1 = Inr (s', st')" and
        cb: "carry_block lift linear containing_lets v [] (result @ [r', s']) st' = Inr r"
        by (auto split: sum.splits)
      from quietD[OF "10.prems"(1) l] have ql: "r' = ?run" "st1 = st"
        "\<forall>st2. L2 linear containing_lets ?run st2 = Inr (?run, st2)" by auto
      from "10.IH"(4)[OF ns bs l refl "10.prems"(1) m sc(1)]
      have q: "s' = stmt" "st' = st1"
        "\<forall>st2. carry_mutate L2 linear containing_lets stmt st2 = Inr (stmt, st2)" by auto
      have t: "\<forall>x\<in>set (result @ [r', s']). tc x"
        using "10.prems"(5) q(1) ql(1) sc(2) tc_leaf chain_stores_tc[OF False nb] by auto
      from "10.IH"(5)[OF ns bs l refl m refl "10.prems"(1) cb vc _ t]
      have "r = (chain (flat (result @ [r', s']) @ [] @ v), st') \<and>
        (\<forall>st2. carry_block L2 linear containing_lets v [] (result @ [r', s']) st2 =
           Inr (chain (flat (result @ [r', s']) @ [] @ v), st2))" by simp
      moreover have "flat (result @ [r', s']) @ [] @ v = flat result @ stores @ stmt # v"
        using q(1) ql(1) sc(2)
        by (simp add: flat_def block_to_vector_leaf block_to_vector_chain[OF False nb])
      ultimately show ?thesis using q ql bs ns by simp
    qed
  qed
qed

text \<open>A loop the driver hands to the rewriter: serial, and its extent not the literal one.\<close>

fun no_eligible_loop :: "Stmt \<Rightarrow> bool" where
  "no_eligible_loop (For n mn ext ft pp da b) =
     (\<not> (ft = Serial \<and> \<not> is_const_one ext) \<and> no_eligible_loop b)"
| "no_eligible_loop (LetStmt n v b) = no_eligible_loop b"
| "no_eligible_loop (Block a b) = (no_eligible_loop a \<and> no_eligible_loop b)"
| "no_eligible_loop (IfThenElse c t e) =
     (no_eligible_loop t \<and> (case e of None \<Rightarrow> True | Some s \<Rightarrow> no_eligible_loop s))"
| "no_eligible_loop (ProducerConsumer n p b) = no_eligible_loop b"
| "no_eligible_loop (Allocate n t m exts c b) = no_eligible_loop b"
| "no_eligible_loop (Store n v i pa p) = True"
| "no_eligible_loop (Evaluate e) = True"

text \<open>No run of stores in the body of an eligible loop has a carry edge: the driver, run
  with the probe in place of the rewriting, comes back.\<close>

definition admits_no_carry :: "'a collab_scheme \<Rightarrow> Stmt \<Rightarrow> bool" where
  "admits_no_carry C S =
     (case loop_carry_mutate (probe C) {} S 0 of Inl e \<Rightarrow> False | Inr r \<Rightarrow> True)"

text \<open>The specification's words, "no serial For with extent > 1", read on literal extents;
  an extent that is not a literal may exceed one.\<close>

fun extent_gt_one :: "Expr \<Rightarrow> bool" where
  "extent_gt_one (IntImm t v) = (1 < v)"
| "extent_gt_one (UIntImm t v) = (1 < v)"
| "extent_gt_one e = True"

fun has_serial_for_gt_one :: "Stmt \<Rightarrow> bool" where
  "has_serial_for_gt_one (For n mn ext ft pp da b) =
     (ft = Serial \<and> extent_gt_one ext \<or> has_serial_for_gt_one b)"
| "has_serial_for_gt_one (LetStmt n v b) = has_serial_for_gt_one b"
| "has_serial_for_gt_one (Block a b) = (has_serial_for_gt_one a \<or> has_serial_for_gt_one b)"
| "has_serial_for_gt_one (IfThenElse c t e) =
     (has_serial_for_gt_one t \<or> (case e of None \<Rightarrow> False | Some s \<Rightarrow> has_serial_for_gt_one s))"
| "has_serial_for_gt_one (ProducerConsumer n p b) = has_serial_for_gt_one b"
| "has_serial_for_gt_one (Allocate n t m exts c b) = has_serial_for_gt_one b"
| "has_serial_for_gt_one (Store n v i pa p) = False"
| "has_serial_for_gt_one (Evaluate e) = False"

lemma no_eligible_identity:
  "no_eligible_loop S \<Longrightarrow> loop_carry_mutate L ic S n = Inr (S, n)"
proof (induction S arbitrary: ic n)
  case (IfThenElse c t e)
  then show ?case by (cases e) auto
qed auto

lemma driver_quiet:
  fixes L2 :: "string set \<Rightarrow> lift_fn"
  shows "\<forall>ic. quiet (L1 ic) (L2 ic) \<Longrightarrow> loop_carry_mutate L1 ic S n = Inr r \<Longrightarrow>
         canonical S \<Longrightarrow>
         r = (S, n) \<and> (\<forall>n2. loop_carry_mutate L2 ic S n2 = Inr (S, n2))"
proof (induction L1 ic S n arbitrary: r rule: loop_carry_mutate.induct)
  case (1 lift in_consume n is_producer b k)
  let ?ic = "if is_producer then in_consume else insert n in_consume"
  from "1.prems"(2) obtain body k' where
    b: "loop_carry_mutate lift ?ic b k = Inr (body, k')"
    and r: "r = (ProducerConsumer n is_producer body, k')"
    by (auto split: sum.splits)
  have cb: "canonical b" using "1.prems"(3) by simp
  note ih = "1.IH"[OF "1.prems"(1) b cb]
  from ih have q: "body = b" "k' = k" by simp_all
  from ih have q2: "\<And>n2. loop_carry_mutate L2 ?ic b n2 = Inr (b, n2)" by blast
  show ?case using r q by (simp add: q2)
next
  case (2 lift in_consume n mn ext ft pp da b k)
  have cb: "canonical b" using "2.prems"(3) by simp
  show ?case
  proof (cases "ft = Serial \<and> \<not> is_const_one ext")
    case True
    let ?sc = "[n \<mapsto> Some (IntImm (Int_t 32) 1)]"
    from "2.prems"(2) True obtain body k1 body' st where
      b: "loop_carry_mutate lift in_consume b k = Inr (body, k1)" and
      m: "carry_mutate (lift in_consume) ?sc [] body \<lparr>allocs = [], fresh = k1\<rparr> = Inr (body', st)"
      and r: "r = (let stmt = inject_allocs n mn (allocs st) (For n mn ext ft pp da body') in
             (if allocs st \<noteq> [] then IfThenElse (GT ext (make_const (type_of ext) 0)) stmt None
              else stmt, fresh st))"
      by (auto simp: Let_def split: sum.splits)
    note ih = "2.IH"(1)[OF True "2.prems"(1) b cb]
    from ih have q: "body = b" "k1 = k" by simp_all
    from ih have q2: "\<And>n2. loop_carry_mutate L2 in_consume b n2 = Inr (b, n2)" by blast
    from "2.prems"(1) have qu: "quiet (lift in_consume) (L2 in_consume)" by simp
    note c = carry_quiet(1)[OF qu m[unfolded q] cb]
    from c have c1: "body' = b" "st = \<lparr>allocs = [], fresh = k\<rparr>" by simp_all
    from c have c2: "\<And>st2. carry_mutate (L2 in_consume) ?sc [] b st2 = Inr (b, st2)" by blast
    show ?thesis using r c1 by (simp add: q2 c2 inject_allocs_def True)
  next
    case False
    from "2.prems"(2) False obtain body k' where
      b: "loop_carry_mutate lift in_consume b k = Inr (body, k')"
      and r: "r = (For n mn ext ft pp da body, k')"
      by (auto split: sum.splits)
    note ih = "2.IH"(2)[OF False "2.prems"(1) b cb]
    from ih have q: "body = b" "k' = k" by simp_all
    from ih have q2: "\<And>n2. loop_carry_mutate L2 in_consume b n2 = Inr (b, n2)" by blast
    show ?thesis using r q by (simp add: q2 False)
  qed
next
  case (3 lift in_consume n v b k)
  from "3.prems"(2) obtain body k' where
    b: "loop_carry_mutate lift in_consume b k = Inr (body, k')"
    and r: "r = (LetStmt n v body, k')"
    by (auto split: sum.splits)
  have cb: "canonical b" using "3.prems"(3) by simp
  note ih = "3.IH"[OF "3.prems"(1) b cb]
  from ih have q: "body = b" "k' = k" by simp_all
  from ih have q2: "\<And>n2. loop_carry_mutate L2 in_consume b n2 = Inr (b, n2)" by blast
  show ?case using r q by (simp add: q2)
next
  case (4 lift in_consume a b k)
  from "4.prems"(2) obtain first k1 rest k' where
    a: "loop_carry_mutate lift in_consume a k = Inr (first, k1)" and
    b: "loop_carry_mutate lift in_consume b k1 = Inr (rest, k')" and
    r: "r = (if first = a \<and> rest = b then Block a b else Block_make2 first rest, k')"
    by (auto split: sum.splits)
  have ca: "canonical a" and cb: "canonical b" using "4.prems"(3) by simp_all
  note iha = "4.IH"(1)[OF "4.prems"(1) a ca]
  from iha have qa: "first = a" "k1 = k" by simp_all
  from iha have qa2: "\<And>n2. loop_carry_mutate L2 in_consume a n2 = Inr (a, n2)" by blast
  note ihb = "4.IH"(2)[OF a refl "4.prems"(1) b cb]
  from ihb have qb: "rest = b" "k' = k1" by simp_all
  from ihb have qb2: "\<And>n2. loop_carry_mutate L2 in_consume b n2 = Inr (b, n2)" by blast
  show ?case using r qa qb by (simp add: qa2 qb2)
next
  case (5 lift in_consume c t e k)
  from "5.prems"(2) obtain then_case k1 where
    t: "loop_carry_mutate lift in_consume t k = Inr (then_case, k1)"
    by (auto split: sum.splits)
  have ct: "canonical t" using "5.prems"(3) by simp
  note iht = "5.IH"(1)[OF "5.prems"(1) t ct]
  from iht have qt: "then_case = t" "k1 = k" by simp_all
  from iht have qt2: "\<And>n2. loop_carry_mutate L2 in_consume t n2 = Inr (t, n2)" by blast
  show ?case
  proof (cases e)
    case None
    with "5.prems"(2) t qt show ?thesis by (simp add: qt2)
  next
    case (Some els)
    with "5.prems"(2) t obtain else_case k' where
      e: "loop_carry_mutate lift in_consume els k1 = Inr (else_case, k')" and
      r: "r = (IfThenElse c then_case (Some else_case), k')"
      by (auto split: sum.splits)
    have ce: "canonical els" using "5.prems"(3) Some by simp
    note ihe = "5.IH"(2)[OF t refl Some "5.prems"(1) e ce]
    from ihe have qe: "else_case = els" "k' = k1" by simp_all
    from ihe have qe2: "\<And>n2. loop_carry_mutate L2 in_consume els n2 = Inr (els, n2)" by blast
    show ?thesis using r qt qe Some by (simp add: qt2 qe2)
  qed
next
  case (6 lift in_consume n t m exts c b k)
  from "6.prems"(2) obtain body k' where
    b: "loop_carry_mutate lift in_consume b k = Inr (body, k')"
    and r: "r = (Allocate n t m exts c body, k')"
    by (auto split: sum.splits)
  have cb: "canonical b" using "6.prems"(3) by simp
  note ih = "6.IH"[OF "6.prems"(1) b cb]
  from ih have q: "body = b" "k' = k" by simp_all
  from ih have q2: "\<And>n2. loop_carry_mutate L2 in_consume b n2 = Inr (b, n2)" by blast
  show ?case using r q by (simp add: q2)
next
  case (7 lift in_consume n v i pa p k)
  then show ?case by auto
next
  case (8 lift in_consume e k)
  then show ?case by auto
qed

text \<open>
  Claim C2, as amended. The pass returns its input when the input has no loop that is
  serial with an extent other than the literal one, and also when its blocks are nested
  the way the constructors nest them and no run of stores in the body of such a loop has
  a carry edge.
\<close>

theorem loop_carry_identity:
  assumes "no_eligible_loop S \<or> canonical S \<and> admits_no_carry C S"
  shows "loop_carry C S k = Inr S"
proof -
  from assms consider "no_eligible_loop S" | "canonical S" "admits_no_carry C S" by blast
  then show ?thesis
  proof cases
    case 1
    then show ?thesis by (simp add: loop_carry_def no_eligible_identity)
  next
    case 2
    from 2(2) obtain r where r: "loop_carry_mutate (probe C) {} S 0 = Inr r"
      by (auto simp: admits_no_carry_def split: sum.splits)
    have "\<forall>ic. quiet (probe C ic) (lift_carried_values_out_of_stmt C k ic)"
      by (simp add: quiet_probe)
    from driver_quiet[OF this r 2(1)] show ?thesis by (simp add: loop_carry_def)
  qed
qed

text \<open>The loop \<^verbatim>\<open>for x in [0, N): out[x] = in[x]\<close> has one group of loads and no edge.\<close>

definition copy_loop :: Stmt where
  "copy_loop =
     For ''x'' (i32 0) (var ''N'') Serial 0 0
       (Store ''out'' (ld (var ''x'')) (var ''x'') None (const_true 1))"

theorem loop_carry_identity_witness:
  "canonical copy_loop \<and> admits_no_carry plain copy_loop \<and>
   loop_carry plain copy_loop 8 = Inr copy_loop"
proof -
  have a: "canonical copy_loop" by (simp add: copy_loop_def)
  have b: "admits_no_carry plain copy_loop"
    by (simp add: admits_no_carry_def copy_loop_def probe_def find_chains_def carries_def
        substitute_in_all_lets_stmt_def safe_def ir_defs upt_rec)
  from loop_carry_identity[of copy_loop plain 8] a b show ?thesis by simp
qed

text \<open>
  The two-tap loop with the extent zero has no serial loop with an extent above one, and
  is rewritten all the same: the driver leaves out only the extent that is the literal one.
\<close>

theorem zero_extent_counterexample:
  "\<not> has_serial_for_gt_one (two_tap_loop (i32 0)) \<and>
   loop_carry plain (two_tap_loop (i32 0)) 8 = Inr (two_tap_out (i32 0)) \<and>
   two_tap_out (i32 0) \<noteq> two_tap_loop (i32 0)"
proof -
  have "\<not> is_const_one (i32 0)" by (simp add: i32_def)
  from loop_carry_two_tap[OF this] show ?thesis
    by (simp add: two_tap_loop_def two_tap_out_def i32_def two_tap_def)
qed

section \<open>A budget of zero\<close>

text \<open>
  Claim C1 at a budget of zero: the pass does not return a statement for the two-tap loop
  \<^verbatim>\<open>for x in [0, N): out[x] = in[x] + in[x+1]\<close>. The empty chain that the budget loop keeps
  (see C10) makes the loop over the initial stores read past the end of an empty vector.
\<close>

theorem loop_carry_zero_budget:
  "loop_carry plain (two_tap_loop (var ''N'')) 0 = Inl OutOfBounds"
  by (rule loop_carry_two_tap_zero) (simp add: var_def)

end
